theory Spec2Isabelle
  imports Complex_Main "HOL-Library.Multiset" "HOL-Library.Sublist"
begin

section \<open>Data model of \<^verbatim>\<open>brainstorm/data_iterators.py\<close>\<close>

text \<open>
  A Python class is identified by its name; every object carries the list of the classes
  it is an instance of (its class followed by the bases), so that
  \<^verbatim>\<open>isinstance(v, T)\<close> is membership of \<open>T\<close> in that list.

  An array is a strided view on a buffer: \<open>buf\<close> is the address of the buffer that holds
  the elements, \<open>offset\<close> the position of element \<open>(0, ..., 0)\<close> in it, \<open>shape\<close> the tuple
  of extents and \<open>strides\<close> the step (in elements) of each axis. Extents and element counts
  are natural numbers.
\<close>

type_synonym pyclass = string

record ndarray =
  mro :: "pyclass list"
  buf :: nat
  offset :: int
  shape :: "nat list"
  strides :: "int list"

text \<open>
  A value handed to an iterator is either an array (it has a \<^verbatim>\<open>shape\<close> attribute, a
  tuple of extents) or some other object, without that attribute.
\<close>

datatype pyval = Plain "pyclass list" | Array ndarray

text \<open>
  A \<^verbatim>\<open>dict\<close> is an association list in insertion order, the order in which
  \<^verbatim>\<open>items()\<close> and \<^verbatim>\<open>values()\<close> enumerate it. Its keys are distinct; no result
  below depends on that.
\<close>

type_synonym named_data = "(string \<times> pyval) list"

datatype py_error =
    IteratorValidationError string
  | ValueError
  | ZeroDivisionError
  | UnboundLocalError
  | AttributeError
  | TypeError
  | IndexError

fun hasattr_shape :: "pyval \<Rightarrow> bool" where
  "hasattr_shape (Plain cs) = False"
| "hasattr_shape (Array a) = True"

fun classes_of :: "pyval \<Rightarrow> pyclass list" where
  "classes_of (Plain cs) = cs"
| "classes_of (Array a) = mro a"

definition isinstance :: "pyval \<Rightarrow> pyclass \<Rightarrow> bool" where
  "isinstance v T = (T \<in> set (classes_of v))"

subsection \<open>Rendering of the error messages\<close>

text \<open>
  \<^verbatim>\<open>'{}'.format(n)\<close> of a non-negative integer is its decimal numeral;
  \<^verbatim>\<open>'{}'.format(d)\<close> of a dict is \<^verbatim>\<open>{'a': 3, 'b': 4}\<close>, each key written by
  \<^verbatim>\<open>repr\<close>. The keys are keyword names, which \<^verbatim>\<open>repr\<close> writes between single
  quotes without escapes.
\<close>

fun show_nat :: "nat \<Rightarrow> string" where
  "show_nat n =
     (if n < 10 then [''0123456789'' ! n]
      else show_nat (n div 10) @ [''0123456789'' ! (n mod 10)])"

declare show_nat.simps [simp del]

definition repr_str :: "string \<Rightarrow> string" where
  "repr_str s = [CHR 0x27] @ s @ [CHR 0x27]"

definition format_item :: "string \<times> nat \<Rightarrow> string" where
  "format_item kv = repr_str (fst kv) @ '': '' @ show_nat (snd kv)"

fun join :: "string \<Rightarrow> string list \<Rightarrow> string" where
  "join sep [] = []"
| "join sep [x] = x"
| "join sep (x # y # ys) = x @ sep @ join sep (y # ys)"

definition format_dict :: "(string \<times> nat) list \<Rightarrow> string" where
  "format_dict d = ''{'' @ join '', '' (map format_item d) @ ''}''"

definition no_shape_message :: "string \<Rightarrow> string" where
  "no_shape_message name = name @ '' has a wrong type. (no shape attribute)''"

definition rank_message :: string where
  "rank_message =
     ''All inputs have to have at least 3 dimensions, where the '' @
     ''first two are time_size and batch_size.''"

definition count_message :: "(string \<times> nat) list \<Rightarrow> string" where
  "count_message nr_sequences =
     ''The number of sequences of all inputs must be equal, but got '' @
     format_dict nr_sequences"

subsection \<open>The shape validator\<close>

text \<open>
  \<^verbatim>\<open>min\<close> and \<^verbatim>\<open>max\<close> of a collection raise \<^verbatim>\<open>ValueError\<close> when it is empty.
\<close>

fun py_min :: "nat list \<Rightarrow> py_error + nat" where
  "py_min [] = Inl ValueError"
| "py_min (x # xs) = Inr (fold min xs x)"

fun py_max :: "nat list \<Rightarrow> py_error + nat" where
  "py_max [] = Inl ValueError"
| "py_max (x # xs) = Inr (fold max xs x)"

text \<open>
  The loop of \<^verbatim>\<open>_assert_correct_data_format\<close> (lines 169 to 178): the entries are
  visited in order, the first offending one raises, and \<open>nr_sequences\<close> collects the
  axis-1 extent of every entry.
\<close>

fun collect_nr_sequences ::
  "named_data \<Rightarrow> (string \<times> nat) list \<Rightarrow> py_error + (string \<times> nat) list" where
  "collect_nr_sequences [] nr_sequences = Inr nr_sequences"
| "collect_nr_sequences ((name, Plain cs) # rest) nr_sequences =
     Inl (IteratorValidationError (no_shape_message name))"
| "collect_nr_sequences ((name, Array a) # rest) nr_sequences =
     (if length (shape a) < 3 then Inl (IteratorValidationError rank_message)
      else collect_nr_sequences rest (nr_sequences @ [(name, shape a ! 1)]))"

definition assert_correct_data_format :: "named_data \<Rightarrow> py_error + nat" where
  "assert_correct_data_format named_data =
     (case collect_nr_sequences named_data [] of
        Inl e \<Rightarrow> Inl e
      | Inr nr_sequences \<Rightarrow>
          (case py_min (map snd nr_sequences) of
             Inl e \<Rightarrow> Inl e
           | Inr lo \<Rightarrow>
               (case py_max (map snd nr_sequences) of
                  Inl e \<Rightarrow> Inl e
                | Inr hi \<Rightarrow>
                    if lo \<noteq> hi
                    then Inl (IteratorValidationError (count_message nr_sequences))
                    else py_min (map snd nr_sequences))))"

text \<open>The three conditions of the validator's contract, as predicates on the mapping.\<close>

definition lacks_shape :: "named_data \<Rightarrow> bool" where
  "lacks_shape named_data = (\<exists>v \<in> set (map snd named_data). \<not> hasattr_shape v)"

definition low_rank :: "named_data \<Rightarrow> bool" where
  "low_rank named_data =
     (\<exists>v \<in> set (map snd named_data). case v of Plain cs \<Rightarrow> False | Array a \<Rightarrow> length (shape a) < 3)"

definition extents_differ :: "named_data \<Rightarrow> bool" where
  "extents_differ named_data =
     (\<exists>v \<in> set (map snd named_data). \<exists>w \<in> set (map snd named_data).
        case (v, w) of
          (Array a, Array b) \<Rightarrow>
            2 \<le> length (shape a) \<and> 2 \<le> length (shape b) \<and> shape a ! 1 \<noteq> shape b ! 1
        | _ \<Rightarrow> False)"

definition well_shaped :: "nat \<Rightarrow> pyval \<Rightarrow> bool" where
  "well_shaped n v = (case v of Plain cs \<Rightarrow> False | Array a \<Rightarrow> 3 \<le> length (shape a) \<and> shape a ! 1 = n)"

text \<open>Auxiliary readings of a value, used to state what a successful validation gives.\<close>

fun axis1 :: "pyval \<Rightarrow> nat" where
  "axis1 (Plain cs) = 0"
| "axis1 (Array a) = shape a ! 1"

definition rank3 :: "pyval \<Rightarrow> bool" where
  "rank3 v = (case v of Plain cs \<Rightarrow> False | Array a \<Rightarrow> 3 \<le> length (shape a))"

definition counts_of :: "named_data \<Rightarrow> (string \<times> nat) list" where
  "counts_of nd = map (\<lambda>kv. (fst kv, axis1 (snd kv))) nd"

subsection \<open>Array operations\<close>

text \<open>
  \<^verbatim>\<open>a.size\<close> is the product of the extents. A slice \<^verbatim>\<open>start:stop\<close> with non-negative
  bounds on an axis of extent \<open>n\<close> is clipped to the axis, it never raises: it starts at
  \<open>min start n\<close> and is empty when the clipped stop is not beyond the clipped start.
  Basic slicing returns a view: the same buffer and class, read from a shifted offset.
  \<^verbatim>\<open>arr[i:j]\<close> is \<open>slice_axis 0 arr i j\<close>, \<^verbatim>\<open>value[:, i:j]\<close> is \<open>slice_axis 1 value i j\<close>;
  indexing an axis the array does not have raises \<^verbatim>\<open>IndexError\<close>.
\<close>

definition size_of :: "ndarray \<Rightarrow> nat" where
  "size_of a = prod_list (shape a)"

definition clip_slice :: "nat \<Rightarrow> nat \<Rightarrow> nat \<Rightarrow> nat \<times> nat" where
  "clip_slice n start stop =
     (let lo = min start n; hi = min stop n
      in (lo, if lo < hi then hi - lo else 0))"

definition slice_axis :: "nat \<Rightarrow> ndarray \<Rightarrow> nat \<Rightarrow> nat \<Rightarrow> py_error + ndarray" where
  "slice_axis k a start stop =
     (if length (shape a) \<le> k then Inl IndexError
      else case clip_slice (shape a ! k) start stop of
        (lo, len) \<Rightarrow>
          Inr (a\<lparr>offset := offset a + int lo * (strides a ! k),
                 shape := (shape a)[k := len]\<rparr>))"

text \<open>
  \<^verbatim>\<open>flat.reshape(shp)\<close> raises \<^verbatim>\<open>ValueError\<close> when the element counts differ. The
  iterators reshape slices of the flat buffer only, where the result is a view in row-major
  order: the stride of an axis is the stride of the flat slice times the product of the
  later extents.
\<close>

definition c_strides :: "int \<Rightarrow> nat list \<Rightarrow> int list" where
  "c_strides s shp = map (\<lambda>k. s * int (prod_list (drop (Suc k) shp))) [0..<length shp]"

definition reshape :: "ndarray \<Rightarrow> nat list \<Rightarrow> py_error + ndarray" where
  "reshape a shp =
     (if prod_list shp \<noteq> size_of a then Inl ValueError
      else Inr (a\<lparr>shape := shp,
                  strides := c_strides (case strides a of [] \<Rightarrow> 1 | s # ss \<Rightarrow> s) shp\<rparr>))"

text \<open>
  Elements live in a store, from buffer addresses and positions to values. An index tuple
  is valid for an array when it has one in-range component per axis; \<open>cell\<close> is the position
  it denotes. \<open>getitem\<close> and \<open>setitem\<close> read and write one element through an array.
\<close>

type_synonym 'e store = "nat \<Rightarrow> int \<Rightarrow> 'e"

definition valid_index :: "ndarray \<Rightarrow> nat list \<Rightarrow> bool" where
  "valid_index a ix = list_all2 (\<lambda>i n. i < n) ix (shape a)"

definition cell :: "ndarray \<Rightarrow> nat list \<Rightarrow> int" where
  "cell a ix = offset a + sum_list (map (\<lambda>(i, s). int i * s) (zip ix (strides a)))"

definition getitem :: "'e store \<Rightarrow> ndarray \<Rightarrow> nat list \<Rightarrow> 'e" where
  "getitem st a ix = st (buf a) (cell a ix)"

definition setitem :: "'e store \<Rightarrow> ndarray \<Rightarrow> nat list \<Rightarrow> 'e \<Rightarrow> 'e store" where
  "setitem st a ix x = st(buf a := (st (buf a))(cell a ix := x))"

subsection \<open>The backend handler\<close>

text \<open>
  Modelled from the spec: the handler classes are not part of this module. A handler
  exposes \<^verbatim>\<open>array_type\<close>, the class that marks backend-resident arrays,
  \<^verbatim>\<open>allocate(n)\<close>, which returns a flat buffer of \<open>n\<close> elements, and
  \<^verbatim>\<open>set_from_numpy(dst, src)\<close>, the host-to-backend copy. \<open>next_buf\<close> is the address of
  the buffer that the next allocation hands out. Calls of the handler are recorded as
  events of the run.
\<close>

record handler =
  array_type :: pyclass
  next_buf :: nat

definition allocate :: "handler \<Rightarrow> nat \<Rightarrow> ndarray" where
  "allocate h n =
     \<lparr>mro = [array_type h], buf = next_buf h, offset = 0, shape = [n], strides = [1]\<rparr>"

text \<open>
  A run of a generator, driven until it is exhausted: the calls of the handler and the
  batches yielded, in order, and how the run ends (\<open>None\<close>: the generator returns;
  \<open>Some e\<close>: it raises \<open>e\<close>). Writes of the progress reporter to standard output are not
  part of the run: the reporter is sent a progress value after each batch and finishes with
  the last one, when the progress first reaches the maximum, so that it takes no part in
  the control flow of the iterators.
\<close>

datatype event =
    Allocate nat ndarray
  | SetFromNumpy ndarray ndarray
  | Yield named_data

type_synonym run = "event list \<times> py_error option"

fun yields :: "event list \<Rightarrow> named_data list" where
  "yields [] = []"
| "yields (Yield b # evs) = b # yields evs"
| "yields (e # evs) = yields evs"

fun allocations :: "event list \<Rightarrow> (nat \<times> ndarray) list" where
  "allocations [] = []"
| "allocations (Allocate n a # evs) = (n, a) # allocations evs"
| "allocations (e # evs) = allocations evs"

fun copies :: "event list \<Rightarrow> (ndarray \<times> ndarray) list" where
  "copies [] = []"
| "copies (SetFromNumpy dst src # evs) = (dst, src) # copies evs"
| "copies (e # evs) = copies evs"

text \<open>
  The staging loop that the three iterators share (lines 57 to 60, 98 to 103 and 153 to
  158): every entry is selected by \<open>sel\<close> (the whole array, one column, or one chunk), gets
  the next slice of the flat buffer in the selection's shape, and is copied into it.
\<close>

fun stage ::
  "ndarray \<Rightarrow> (pyval \<Rightarrow> py_error + ndarray) \<Rightarrow> named_data \<Rightarrow> nat \<Rightarrow> named_data \<Rightarrow>
     event list \<times> (py_error + named_data)" where
  "stage arr sel [] j device_data = ([], Inr device_data)"
| "stage arr sel ((key, value) # rest) j device_data =
     (case sel value of
        Inl e \<Rightarrow> ([], Inl e)
      | Inr val_s \<Rightarrow>
          (case slice_axis 0 arr j (j + size_of val_s) of
             Inl e \<Rightarrow> ([], Inl e)
           | Inr flat \<Rightarrow>
               (case reshape flat (shape val_s) of
                  Inl e \<Rightarrow> ([], Inl e)
                | Inr dst \<Rightarrow>
                    (case stage arr sel rest (j + size_of val_s)
                            (device_data @ [(key, Array dst)]) of
                       (evs, r) \<Rightarrow> (SetFromNumpy dst val_s # evs, r)))))"

text \<open>The zero-copy dict comprehension \<^verbatim>\<open>{k: v[...] for k, v in self.data.items()}\<close>.\<close>

fun select_all :: "(pyval \<Rightarrow> py_error + ndarray) \<Rightarrow> named_data \<Rightarrow> py_error + named_data" where
  "select_all sel [] = Inr []"
| "select_all sel ((k, v) # rest) =
     (case sel v of
        Inl e \<Rightarrow> Inl e
      | Inr val_s \<Rightarrow>
          (case select_all sel rest of
             Inl e \<Rightarrow> Inl e
           | Inr device_data \<Rightarrow> Inr ((k, Array val_s) # device_data)))"

text \<open>
  \<^verbatim>\<open>sum(f(d) for d in self.data.values())\<close>, where reading an attribute that a value
  does not have raises.
\<close>

fun sum_over :: "(pyval \<Rightarrow> py_error + nat) \<Rightarrow> named_data \<Rightarrow> py_error + nat" where
  "sum_over f [] = Inr 0"
| "sum_over f ((k, d) # rest) =
     (case f d of
        Inl e \<Rightarrow> Inl e
      | Inr n \<Rightarrow> (case sum_over f rest of Inl e \<Rightarrow> Inl e | Inr m \<Rightarrow> Inr (n + m)))"

fun size_attr :: "pyval \<Rightarrow> py_error + nat" where
  "size_attr (Plain cs) = Inl AttributeError"
| "size_attr (Array a) = Inr (size_of a)"

text \<open>\<^verbatim>\<open>d.shape[0] * np.prod(d.shape[2:])\<close>\<close>

fun column_size :: "pyval \<Rightarrow> py_error + nat" where
  "column_size (Plain cs) = Inl AttributeError"
| "column_size (Array a) =
     (case shape a of [] \<Rightarrow> Inl IndexError | t # fs \<Rightarrow> Inr (t * prod_list (drop 2 (shape a))))"

subsection \<open>Seeded shuffling\<close>

text \<open>
  Modelled from the spec: \<^verbatim>\<open>brainstorm.randomness\<close> (the class \<^verbatim>\<open>Seedable\<close> and its
  generator) is not part of this module. \<^verbatim>\<open>Seedable.__init__(self, seed)\<close> gives the
  instance a pseudo-random generator \<^verbatim>\<open>self.rnd\<close> whose state is fixed by the seed, and
  \<^verbatim>\<open>self.rnd.shuffle(indices)\<close> reorders the indices and advances that state. Both are
  parameters: \<open>seed_state\<close> is the state created for a seed (\<open>None\<close>: no seed was given),
  \<open>rnd_shuffle\<close> the reordering together with the advanced state. \<open>permuting\<close> says that
  shuffling reorders and neither drops nor repeats an index.
\<close>

record 'g randomness =
  seed_state :: "int option \<Rightarrow> 'g"
  rnd_shuffle :: "'g \<Rightarrow> nat list \<Rightarrow> nat list \<times> 'g"

definition permuting :: "'g randomness \<Rightarrow> bool" where
  "permuting R = (\<forall>g xs. mset (fst (rnd_shuffle R g xs)) = mset xs)"

subsection \<open>The loop over the indices\<close>

text \<open>
  \<^verbatim>\<open>for i, idx in enumerate(indices): ...; yield device_data\<close>, as \<open>Online\<close> and
  \<open>Minibatches\<close> have it: \<open>body idx\<close> builds the batch of one index, with the handler
  calls it makes; an exception in the body ends the run.
\<close>

fun run_batches :: "(nat \<Rightarrow> event list \<times> (py_error + named_data)) \<Rightarrow> nat list \<Rightarrow> run" where
  "run_batches body [] = ([], None)"
| "run_batches body (idx # rest) =
     (case body idx of
        (evs, Inl e) \<Rightarrow> (evs, Some e)
      | (evs, Inr device_data) \<Rightarrow>
          (case run_batches body rest of
             (evs', out) \<Rightarrow> (evs @ Yield device_data # evs', out)))"

text \<open>
  The body of that loop: staged through \<open>arr\<close> when \<open>need_copy\<close>, views otherwise. \<open>arr\<close> is
  bound only when the buffer was allocated.
\<close>

definition make_batch ::
  "named_data \<Rightarrow> bool \<Rightarrow> ndarray option \<Rightarrow> (pyval \<Rightarrow> py_error + ndarray) \<Rightarrow>
     event list \<times> (py_error + named_data)" where
  "make_batch d need_copy arr sel =
     (if need_copy then
        (case arr of
           None \<Rightarrow> ([], Inl UnboundLocalError)
         | Some a \<Rightarrow> stage a sel d 0 [])
      else ([], select_all sel d))"

definition need_copy_of :: "named_data \<Rightarrow> handler \<Rightarrow> bool" where
  "need_copy_of d h = (\<not> list_all (\<lambda>v. isinstance v (array_type h)) (map snd d))"

subsection \<open>Undivided\<close>

record Undivided =
  data :: named_data
  total_size :: nat

definition Undivided_init :: "named_data \<Rightarrow> py_error + Undivided" where
  "Undivided_init named_data =
     (case assert_correct_data_format named_data of
        Inl e \<Rightarrow> Inl e
      | Inr n \<Rightarrow>
          (case sum_over size_attr named_data of
             Inl e \<Rightarrow> Inl e
           | Inr s \<Rightarrow> Inr \<lparr>data = named_data, total_size = s\<rparr>))"

fun whole :: "pyval \<Rightarrow> py_error + ndarray" where
  "whole (Plain cs) = Inl AttributeError"
| "whole (Array a) = Inr a"

text \<open>
  \<^verbatim>\<open>self.data\<close> is the dict of the named arrays; a dict is an instance of \<^verbatim>\<open>dict\<close> and
  \<^verbatim>\<open>object\<close>. The first branch yields it; the \<^verbatim>\<open>yield device_data\<close> that follows the
  conditional then reads a local that was never bound.
\<close>

definition dict_classes :: "pyclass list" where
  "dict_classes = [''dict'', ''object'']"

definition Undivided_call :: "Undivided \<Rightarrow> handler \<Rightarrow> bool \<Rightarrow> run" where
  "Undivided_call it h verbose_arg =
     (if array_type h \<in> set dict_classes
      then ([Yield (Undivided.data it)], Some UnboundLocalError)
      else
        (let arr = allocate h (total_size it)
         in case stage arr whole (Undivided.data it) 0 [] of
              (evs, Inl e) \<Rightarrow> (Allocate (total_size it) arr # evs, Some e)
            | (evs, Inr device_data) \<Rightarrow>
                (Allocate (total_size it) arr # evs @ [Yield device_data], None)))"

subsection \<open>Online\<close>

record 'g Online =
  rnd :: 'g
  nr_sequences :: nat
  data :: named_data
  shuffle :: bool
  verbose :: "bool option"
  sample_size :: nat

definition Online_init ::
  "'g randomness \<Rightarrow> bool \<Rightarrow> bool option \<Rightarrow> int option \<Rightarrow> named_data \<Rightarrow> py_error + 'g Online" where
  "Online_init R shuffle_arg verbose_arg seed named_data =
     (case assert_correct_data_format named_data of
        Inl e \<Rightarrow> Inl e
      | Inr n \<Rightarrow>
          (case sum_over column_size named_data of
             Inl e \<Rightarrow> Inl e
           | Inr s \<Rightarrow>
               Inr \<lparr>rnd = seed_state R seed, nr_sequences = n, data = named_data,
                    shuffle = shuffle_arg, verbose = verbose_arg, sample_size = s\<rparr>))"

text \<open>\<^verbatim>\<open>value[:, idx: idx + 1]\<close>\<close>

fun column :: "nat \<Rightarrow> pyval \<Rightarrow> py_error + ndarray" where
  "column idx (Plain cs) = Inl TypeError"
| "column idx (Array a) = slice_axis 1 a idx (idx + 1)"

text \<open>Lines 91 to 93: the order in which one call visits the sequences.\<close>

definition Online_indices :: "'g randomness \<Rightarrow> 'g Online \<Rightarrow> nat list \<times> 'g" where
  "Online_indices R it =
     (let indices = [0..<Online.nr_sequences it]
      in if Online.shuffle it then rnd_shuffle R (Online.rnd it) indices
         else (indices, Online.rnd it))"

definition Online_call ::
  "'g randomness \<Rightarrow> 'g Online \<Rightarrow> handler \<Rightarrow> bool \<Rightarrow> run \<times> 'g Online" where
  "Online_call R it h verbose_arg =
     (let need_copy = need_copy_of (Online.data it) h;
          arr = (if need_copy then Some (allocate h (Online.sample_size it)) else None);
          alloc = (case arr of None \<Rightarrow> [] | Some a \<Rightarrow> [Allocate (Online.sample_size it) a])
      in case Online_indices R it of
           (indices, rnd') \<Rightarrow>
             (case run_batches (\<lambda>idx. make_batch (Online.data it) need_copy arr (column idx)) indices of
                (evs, out) \<Rightarrow> ((alloc @ evs, out), it\<lparr>Online.rnd := rnd'\<rparr>)))"

subsection \<open>Minibatches\<close>

text \<open>
  \<open>batch_size\<close> is a count, a natural number: zero is modelled (the division of line 143
  raises), a negative size is not.
\<close>

record 'g Minibatches =
  rnd :: 'g
  nr_sequences :: nat
  data :: named_data
  shuffle :: bool
  verbose :: "bool option"
  batch_size :: nat
  sample_size :: nat

text \<open>\<^verbatim>\<open>d.shape[0] * np.prod(d.shape[2:]) * batch_size\<close>\<close>

definition chunk_size :: "nat \<Rightarrow> pyval \<Rightarrow> py_error + nat" where
  "chunk_size b d = (case column_size d of Inl e \<Rightarrow> Inl e | Inr n \<Rightarrow> Inr (n * b))"

definition Minibatches_init ::
  "'g randomness \<Rightarrow> nat \<Rightarrow> bool \<Rightarrow> bool option \<Rightarrow> int option \<Rightarrow> named_data \<Rightarrow>
     py_error + 'g Minibatches" where
  "Minibatches_init R batch_size_arg shuffle_arg verbose_arg seed named_data =
     (case assert_correct_data_format named_data of
        Inl e \<Rightarrow> Inl e
      | Inr n \<Rightarrow>
          (case sum_over (chunk_size batch_size_arg) named_data of
             Inl e \<Rightarrow> Inl e
           | Inr s \<Rightarrow>
               Inr \<lparr>rnd = seed_state R seed, nr_sequences = n, data = named_data,
                    shuffle = shuffle_arg, verbose = verbose_arg, batch_size = batch_size_arg,
                    sample_size = s\<rparr>))"

text \<open>
  \<^verbatim>\<open>value[(slice(None), slice(idx * batch_size, (idx + 1) * batch_size))]\<close>
\<close>

fun chunk :: "nat \<Rightarrow> nat \<Rightarrow> pyval \<Rightarrow> py_error + ndarray" where
  "chunk b idx (Plain cs) = Inl TypeError"
| "chunk b idx (Array a) = slice_axis 1 a (idx * b) ((idx + 1) * b)"

text \<open>
  \<^verbatim>\<open>int(math.ceil(self.nr_sequences / self.batch_size))\<close>: the true division raises
  \<^verbatim>\<open>ZeroDivisionError\<close> for a zero divisor, and the quotient rounded up is
  \<open>(n + b - 1) div b\<close>.
\<close>

definition nr_chunks :: "nat \<Rightarrow> nat \<Rightarrow> py_error + nat" where
  "nr_chunks n b = (if b = 0 then Inl ZeroDivisionError else Inr ((n + b - 1) div b))"


text \<open>Lines 143 to 145: the order in which one call visits the chunks.\<close>

definition Minibatches_indices ::
  "'g randomness \<Rightarrow> 'g Minibatches \<Rightarrow> py_error + nat list \<times> 'g" where
  "Minibatches_indices R it =
     (case nr_chunks (Minibatches.nr_sequences it) (batch_size it) of
        Inl e \<Rightarrow> Inl e
      | Inr k \<Rightarrow>
          Inr (if Minibatches.shuffle it then rnd_shuffle R (Minibatches.rnd it) [0..<k]
               else ([0..<k], Minibatches.rnd it)))"

definition Minibatches_call ::
  "'g randomness \<Rightarrow> 'g Minibatches \<Rightarrow> handler \<Rightarrow> bool \<Rightarrow> run \<times> 'g Minibatches" where
  "Minibatches_call R it h verbose_arg =
     (let need_copy = need_copy_of (Minibatches.data it) h;
          arr = (if need_copy then Some (allocate h (Minibatches.sample_size it)) else None);
          alloc = (case arr of None \<Rightarrow> [] | Some a \<Rightarrow> [Allocate (Minibatches.sample_size it) a])
      in case Minibatches_indices R it of
           Inl e \<Rightarrow> ((alloc, Some e), it)
         | Inr (indices, rnd') \<Rightarrow>
             (case run_batches
                     (\<lambda>idx. make_batch (Minibatches.data it) need_copy arr (chunk (batch_size it) idx))
                     indices of
                (evs, out) \<Rightarrow> ((alloc @ evs, out), it\<lparr>Minibatches.rnd := rnd'\<rparr>)))"

subsection \<open>What a call builds\<close>

text \<open>
  Closed forms of what the loops compute on validated data, used to state the results:
  the arrays of a dataset, the element count of one column of a value, the extent and the
  view that the chunk \<open>idx\<close> of size \<open>b\<close> cuts out of axis 1, and the views of the flat
  buffer that receive a list of sources from position \<open>j\<close> on.
\<close>

fun arrays_of :: "named_data \<Rightarrow> ndarray list" where
  "arrays_of [] = []"
| "arrays_of ((k, Plain cs) # rest) = arrays_of rest"
| "arrays_of ((k, Array a) # rest) = a # arrays_of rest"

definition column_elems :: "ndarray \<Rightarrow> nat" where
  "column_elems a = hd (shape a) * prod_list (drop 2 (shape a))"

definition chunk_extent :: "nat \<Rightarrow> nat \<Rightarrow> nat \<Rightarrow> nat" where
  "chunk_extent n b idx = min ((idx + 1) * b) n - min (idx * b) n"

definition chunk_view :: "nat \<Rightarrow> nat \<Rightarrow> ndarray \<Rightarrow> ndarray" where
  "chunk_view b idx a =
     a\<lparr>offset := offset a + int (min (idx * b) (shape a ! 1)) * (strides a ! 1),
       shape := (shape a)[1 := chunk_extent (shape a ! 1) b idx]\<rparr>"

fun staged :: "ndarray \<Rightarrow> nat \<Rightarrow> ndarray list \<Rightarrow> ndarray list" where
  "staged arr j [] = []"
| "staged arr j (src # srcs) =
     arr\<lparr>offset := offset arr + int j * hd (strides arr), shape := shape src,
         strides := c_strides (hd (strides arr)) (shape src)\<rparr>
     # staged arr (j + size_of src) srcs"

definition named :: "named_data \<Rightarrow> ndarray list \<Rightarrow> named_data" where
  "named d as = zip (map fst d) (map Array as)"

definition copy_events :: "ndarray list \<Rightarrow> ndarray list \<Rightarrow> event list" where
  "copy_events dsts srcs = map (\<lambda>p. SetFromNumpy (fst p) (snd p)) (zip dsts srcs)"

text \<open>
  The sources, the handler calls and the batch of the chunk \<open>idx\<close>: with a buffer \<open>arr\<close> the
  sources are copied into their slices of it and those slices are yielded, without one the
  sources themselves are yielded.
\<close>

definition chunk_sources :: "named_data \<Rightarrow> nat \<Rightarrow> nat \<Rightarrow> ndarray list" where
  "chunk_sources d b idx = map (chunk_view b idx) (arrays_of d)"

definition chunk_events :: "named_data \<Rightarrow> ndarray option \<Rightarrow> nat \<Rightarrow> nat \<Rightarrow> event list" where
  "chunk_events d arr b idx =
     (case arr of
        None \<Rightarrow> []
      | Some a \<Rightarrow> copy_events (staged a 0 (chunk_sources d b idx)) (chunk_sources d b idx))"

definition chunk_batch :: "named_data \<Rightarrow> ndarray option \<Rightarrow> nat \<Rightarrow> nat \<Rightarrow> named_data" where
  "chunk_batch d arr b idx =
     (case arr of
        None \<Rightarrow> named d (chunk_sources d b idx)
      | Some a \<Rightarrow> named d (staged a 0 (chunk_sources d b idx)))"

definition chunk_run :: "named_data \<Rightarrow> ndarray option \<Rightarrow> nat \<Rightarrow> nat list \<Rightarrow> event list" where
  "chunk_run d arr b indices =
     concat (map (\<lambda>idx. chunk_events d arr b idx @ [Yield (chunk_batch d arr b idx)]) indices)"

text \<open>
  The buffer that a call binds to \<open>arr\<close> (none on the zero-copy path) and the handler call
  that creates it.
\<close>

definition buffer_of :: "named_data \<Rightarrow> handler \<Rightarrow> nat \<Rightarrow> ndarray option" where
  "buffer_of d h s = (if need_copy_of d h then Some (allocate h s) else None)"

definition alloc_events :: "ndarray option \<Rightarrow> nat \<Rightarrow> event list" where
  "alloc_events arr s = (case arr of None \<Rightarrow> [] | Some a \<Rightarrow> [Allocate s a])"

text \<open>
  What a run over the indices looks like on either path. With a copy, the run allocates
  the buffer once, and for each index copies the sources into their slices of the buffer
  and yields those slices; without, it calls the handler not at all and yields the views
  of the dataset.
\<close>

definition staged_or_viewed ::
  "named_data \<Rightarrow> handler \<Rightarrow> nat \<Rightarrow> nat \<Rightarrow> nat list \<Rightarrow> event list \<Rightarrow> bool" where
  "staged_or_viewed d h s b indices evs =
     (if need_copy_of d h
      then allocations evs = [(s, allocate h s)] \<and>
           yields evs =
             map (\<lambda>idx. named d (staged (allocate h s) 0 (chunk_sources d b idx))) indices \<and>
           copies evs =
             concat (map (\<lambda>idx. zip (staged (allocate h s) 0 (chunk_sources d b idx))
                                      (chunk_sources d b idx)) indices)
      else allocations evs = [] \<and> copies evs = [] \<and>
           yields evs = map (\<lambda>idx. named d (chunk_sources d b idx)) indices)"

definition order_of :: "py_error + nat list \<Rightarrow> nat list" where
  "order_of r = (case r of Inl e \<Rightarrow> [] | Inr indices \<Rightarrow> indices)"

text \<open>
  A batch has axis-1 extent \<open>e\<close> when each of its values is an array of at least 3 axes
  whose axis 1 has extent \<open>e\<close>; \<open>batch_extent\<close> reads the extent off the first value.
\<close>

definition has_extent :: "nat \<Rightarrow> named_data \<Rightarrow> bool" where
  "has_extent e batch = list_all (well_shaped e) (map snd batch)"



definition Minibatches_order :: "'g randomness \<Rightarrow> 'g Minibatches \<Rightarrow> py_error + nat list" where
  "Minibatches_order R it =
     (case Minibatches_indices R it of Inl e \<Rightarrow> Inl e | Inr (indices, g) \<Rightarrow> Inr indices)"


subsection \<open>Sample inputs\<close>

text \<open>
  A contiguous host array (class \<^verbatim>\<open>ndarray\<close>) in buffer \<open>b\<close>, two handlers whose marker
  classes are \<^verbatim>\<open>ndarray\<close> and \<^verbatim>\<open>GPUArray\<close>, a handler whose marker class is \<^verbatim>\<open>object\<close>, and
  a generator whose shuffle rotates by one more than its state.
\<close>

definition host_array :: "nat \<Rightarrow> nat list \<Rightarrow> pyval" where
  "host_array b shp =
     Array \<lparr>mro = [''ndarray'', ''object''], buf = b, offset = 0, shape = shp,
            strides = c_strides 1 shp\<rparr>"

definition numpy_handler :: handler where
  "numpy_handler = \<lparr>array_type = ''ndarray'', next_buf = 7\<rparr>"

definition gpu_handler :: handler where
  "gpu_handler = \<lparr>array_type = ''GPUArray'', next_buf = 7\<rparr>"


definition rotating :: "nat randomness" where
  "rotating =
     \<lparr>seed_state = (\<lambda>s. case s of None \<Rightarrow> 0 | Some i \<Rightarrow> nat \<bar>i\<bar>),
      rnd_shuffle = (\<lambda>g xs. (rotate (Suc g) xs, Suc g))\<rparr>"

definition example_data :: named_data where
  "example_data = [(''x'', host_array 0 [2, 3, 2]), (''y'', host_array 1 [1, 3, 1])]"

definition example_undivided :: Undivided where
  "example_undivided = \<lparr>Undivided.data = example_data, total_size = 15\<rparr>"

definition example_online :: "nat Online" where
  "example_online =
     \<lparr>Online.rnd = 1, nr_sequences = 3, data = example_data, shuffle = True, verbose = None,
      sample_size = 5\<rparr>"

definition example_minibatches :: "nat Minibatches" where
  "example_minibatches =
     \<lparr>Minibatches.rnd = 0, nr_sequences = 3, data = example_data, shuffle = True,
      verbose = None, batch_size = 2, sample_size = 10\<rparr>"

definition example_zero_batches :: "nat Minibatches" where
  "example_zero_batches =
     \<lparr>Minibatches.rnd = 0, nr_sequences = 3, data = example_data, shuffle = True,
      verbose = None, batch_size = 0, sample_size = 0\<rparr>"





definition example_x :: ndarray where
  "example_x =
     \<lparr>mro = [''ndarray'', ''object''], buf = 0, offset = 0, shape = [2, 3, 2],
      strides = [6, 2, 1]\<rparr>"

definition mismatched_data :: named_data where
  "mismatched_data = [(''x'', host_array 0 [5, 3, 2]), (''y'', host_array 1 [5, 4, 2])]"

definition rank2_data :: named_data where
  "rank2_data = [(''x'', host_array 0 [7, 9])]"

section \<open>The shape validator\<close>

lemma collect_Inr:
  "collect_nr_sequences nd acc = Inr r \<Longrightarrow>
     list_all rank3 (map snd nd) \<and> r = acc @ map (\<lambda>kv. (fst kv, axis1 (snd kv))) nd"
proof (induction nd acc rule: collect_nr_sequences.induct)
  case (1 nr_sequences)
  then show ?case by simp
next
  case (2 name cs rest nr_sequences)
  then show ?case by simp
next
  case (3 name a rest nr_sequences)
  then show ?case by (simp add: rank3_def split: if_splits)
qed

lemma collect_Inl:
  "collect_nr_sequences nd acc = Inl e \<Longrightarrow>
     \<not> list_all rank3 (map snd nd) \<and>
     (e = IteratorValidationError rank_message \<or> (\<exists>name. e = IteratorValidationError (no_shape_message name)))"
proof (induction nd acc rule: collect_nr_sequences.induct)
  case (1 nr_sequences)
  then show ?case by simp
next
  case (2 name cs rest nr_sequences)
  then show ?case by (auto simp add: rank3_def)
next
  case (3 name a rest nr_sequences)
  then show ?case by (auto simp add: rank3_def split: if_splits)
qed

lemma rank3_iff: "list_all rank3 (map snd nd) \<longleftrightarrow> \<not> lacks_shape nd \<and> \<not> low_rank nd"
proof (induction nd)
  case Nil
  show ?case by (simp add: lacks_shape_def low_rank_def)
next
  case (Cons kv nd)
  obtain k v where kv: "kv = (k, v)" by (cases kv)
  show ?case
  proof (cases v)
    case (Plain cs)
    with kv show ?thesis by (simp add: lacks_shape_def rank3_def)
  next
    case (Array a)
    with kv Cons show ?thesis
      by (auto simp add: lacks_shape_def low_rank_def rank3_def)
  qed
qed

lemma fold_min_le: "fold min xs (x::nat) \<le> x"
proof (induction xs arbitrary: x)
  case Nil
  show ?case by simp
next
  case (Cons a xs)
  have "fold min xs (min a x) \<le> min a x" by (rule Cons.IH)
  then show ?case by simp
qed

lemma fold_min_le_mem: "y \<in> set xs \<Longrightarrow> fold min xs (x::nat) \<le> y"
proof (induction xs arbitrary: x)
  case Nil
  then show ?case by simp
next
  case (Cons a xs)
  show ?case
  proof (cases "y = a")
    case True
    have "fold min xs (min a x) \<le> min a x" by (rule fold_min_le)
    with True show ?thesis by simp
  next
    case False
    with Cons.prems have "y \<in> set xs" by simp
    then show ?thesis using Cons.IH by simp
  qed
qed

lemma fold_max_ge: "(x::nat) \<le> fold max xs x"
proof (induction xs arbitrary: x)
  case Nil
  show ?case by simp
next
  case (Cons a xs)
  have "max a x \<le> fold max xs (max a x)" by (rule Cons.IH)
  then show ?case by simp
qed

lemma fold_max_ge_mem: "y \<in> set xs \<Longrightarrow> y \<le> fold max xs (x::nat)"
proof (induction xs arbitrary: x)
  case Nil
  then show ?case by simp
next
  case (Cons a xs)
  show ?case
  proof (cases "y = a")
    case True
    have "max a x \<le> fold max xs (max a x)" by (rule fold_max_ge)
    with True show ?thesis by simp
  next
    case False
    with Cons.prems have "y \<in> set xs" by simp
    then show ?thesis using Cons.IH by simp
  qed
qed

lemma fold_min_const: "\<forall>y \<in> set xs. y = x \<Longrightarrow> fold min xs (x::nat) = x"
  by (induction xs) simp_all

lemma fold_max_const: "\<forall>y \<in> set xs. y = x \<Longrightarrow> fold max xs (x::nat) = x"
  by (induction xs) simp_all

lemma min_eq_max_iff:
  "fold min xs (x::nat) = fold max xs x \<longleftrightarrow> (\<forall>y \<in> set xs. y = x)"
proof
  assume eq: "fold min xs x = fold max xs x"
  have x: "fold min xs x = x"
    using fold_min_le [of xs x] fold_max_ge [of x xs] eq by simp
  show "\<forall>y \<in> set xs. y = x"
  proof
    fix y assume "y \<in> set xs"
    then have "fold min xs x \<le> y" "y \<le> fold max xs x"
      by (rule fold_min_le_mem, rule fold_max_ge_mem)
    with eq x show "y = x" by simp
  qed
next
  assume "\<forall>y \<in> set xs. y = x"
  then show "fold min xs x = fold max xs x"
    by (simp add: fold_min_const fold_max_const)
qed

lemma collect_rank3:
  assumes "list_all rank3 (map snd nd)"
  shows "collect_nr_sequences nd acc = Inr (acc @ counts_of nd)"
proof (cases "collect_nr_sequences nd acc")
  case (Inl e)
  with collect_Inl [of nd acc e] assms show ?thesis by simp
next
  case (Inr r)
  with collect_Inr [of nd acc r] show ?thesis by (simp add: counts_of_def)
qed

lemma validator_rank3:
  assumes "list_all rank3 (map snd nd)"
  shows "assert_correct_data_format nd =
     (case map snd (counts_of nd) of
        [] \<Rightarrow> Inl ValueError
      | x # xs \<Rightarrow>
          if \<forall>y \<in> set xs. y = x then Inr x
          else Inl (IteratorValidationError (count_message (counts_of nd))))"
proof (cases "map snd (counts_of nd)")
  case Nil
  then show ?thesis
    by (simp add: assert_correct_data_format_def collect_rank3 [OF assms])
next
  case (Cons x xs)
  then show ?thesis
    using min_eq_max_iff [of xs x]
    by (simp add: assert_correct_data_format_def collect_rank3 [OF assms] fold_min_const)
qed

lemma validator_not_rank3:
  assumes "\<not> list_all rank3 (map snd nd)"
  shows "assert_correct_data_format nd = Inl (IteratorValidationError rank_message) \<or>
         (\<exists>name. assert_correct_data_format nd = Inl (IteratorValidationError (no_shape_message name)))"
proof (cases "collect_nr_sequences nd []")
  case (Inl e)
  with collect_Inl [of nd "[]" e] show ?thesis
    by (auto simp add: assert_correct_data_format_def)
next
  case (Inr r)
  with collect_Inr [of nd "[]" r] assms show ?thesis by simp
qed

lemma rank3_well_shaped: "well_shaped n v \<longleftrightarrow> rank3 v \<and> axis1 v = n"
  by (cases v) (simp_all add: well_shaped_def rank3_def)

lemma extents_differ_rank3:
  assumes "list_all rank3 (map snd nd)"
  shows "extents_differ nd \<longleftrightarrow> (\<exists>v \<in> set (map snd nd). \<exists>w \<in> set (map snd nd). axis1 v \<noteq> axis1 w)"
proof -
  have *: "(case (v, w) of
              (Array a, Array b) \<Rightarrow> 2 \<le> length (shape a) \<and> 2 \<le> length (shape b) \<and> shape a ! 1 \<noteq> shape b ! 1
            | _ \<Rightarrow> False) \<longleftrightarrow> axis1 v \<noteq> axis1 w"
    if "rank3 v" "rank3 w" for v w
    using that by (cases v; cases w) (simp_all add: rank3_def)
  from assms have r: "\<forall>v \<in> set (map snd nd). rank3 v" by (simp add: list_all_iff)
  show ?thesis
    unfolding extents_differ_def using r * by blast
qed

lemma differ_iff_not_const:
  "(\<exists>v \<in> set (x # xs). \<exists>w \<in> set (x # xs). f v \<noteq> f w) \<longleftrightarrow> \<not> (\<forall>y \<in> set xs. f y = f x)"
proof
  assume "\<exists>v \<in> set (x # xs). \<exists>w \<in> set (x # xs). f v \<noteq> f w"
  then obtain v w where vw: "v \<in> set (x # xs)" "w \<in> set (x # xs)" "f v \<noteq> f w" by blast
  show "\<not> (\<forall>y \<in> set xs. f y = f x)"
  proof
    assume all: "\<forall>y \<in> set xs. f y = f x"
    from vw(1) all have "f v = f x" by auto
    moreover from vw(2) all have "f w = f x" by auto
    ultimately show False using vw(3) by simp
  qed
next
  assume "\<not> (\<forall>y \<in> set xs. f y = f x)"
  then obtain y where "y \<in> set xs" "f y \<noteq> f x" by blast
  then show "\<exists>v \<in> set (x # xs). \<exists>w \<in> set (x # xs). f v \<noteq> f w" by auto
qed

lemma validator_result:
  "((\<exists>msg. assert_correct_data_format nd = Inl (IteratorValidationError msg)) \<longleftrightarrow>
      lacks_shape nd \<or> low_rank nd \<or> extents_differ nd) \<and>
   (\<forall>n. assert_correct_data_format nd = Inr n \<longrightarrow> list_all (well_shaped n) (map snd nd)) \<and>
   ((\<exists>n. assert_correct_data_format nd = Inr n) \<longleftrightarrow>
      nd \<noteq> [] \<and> \<not> (lacks_shape nd \<or> low_rank nd \<or> extents_differ nd))"
proof (cases "list_all rank3 (map snd nd)")
  case False
  with rank3_iff [of nd] have bad: "lacks_shape nd \<or> low_rank nd" by blast
  from validator_not_rank3 [OF False] bad show ?thesis by auto
next
  case True
  with rank3_iff [of nd] have ok: "\<not> lacks_shape nd" "\<not> low_rank nd" by blast+
  note v = validator_rank3 [OF True]
  note d = extents_differ_rank3 [OF True]
  show ?thesis
  proof (cases nd)
    case Nil
    with v d ok show ?thesis by (simp add: counts_of_def)
  next
    case (Cons kv rest)
    let ?x = "axis1 (snd kv)"
    let ?xs = "map (\<lambda>kv. axis1 (snd kv)) rest"
    have cs: "map snd (counts_of nd) = ?x # ?xs" using Cons by (simp add: counts_of_def)
    have "extents_differ nd \<longleftrightarrow> \<not> (\<forall>y \<in> set (map snd rest). axis1 y = axis1 (snd kv))"
      unfolding d using Cons differ_iff_not_const [of "snd kv" "map snd rest" axis1] by simp
    then have d': "extents_differ nd \<longleftrightarrow> \<not> (\<forall>y \<in> set ?xs. y = ?x)"
      by auto
    have ws: "list_all (well_shaped ?x) (map snd nd)" if "\<forall>y \<in> set ?xs. y = ?x"
      using that True Cons by (auto simp add: list_all_iff rank3_well_shaped)
    show ?thesis
    proof (cases "\<forall>y \<in> set ?xs. y = ?x")
      case same: True
      then have "assert_correct_data_format nd = Inr ?x" using v cs by simp
      with same d' ok ws Cons show ?thesis by simp
    next
      case diff: False
      then have "assert_correct_data_format nd = Inl (IteratorValidationError (count_message (counts_of nd)))"
        using v cs by simp
      with diff d' show ?thesis by simp
    qed
  qed
qed

text \<open>
  C1. For every mapping from names to values, the validator raises a validation error if
  and only if some value lacks a shape attribute, or some value has fewer than 3 axes, or
  the axis-1 extents differ across entries; when it returns, every entry has at least 3
  axes and the returned number as its axis-1 extent; and it returns exactly when the
  mapping is not empty and none of the three conditions holds.
\<close>

theorem validator_contract:
  "((\<exists>msg. assert_correct_data_format nd = Inl (IteratorValidationError msg)) \<longleftrightarrow>
      lacks_shape nd \<or> low_rank nd \<or> extents_differ nd) \<and>
   (\<forall>n. assert_correct_data_format nd = Inr n \<longrightarrow> list_all (well_shaped n) (map snd nd)) \<and>
   ((\<exists>n. assert_correct_data_format nd = Inr n) \<longleftrightarrow>
      nd \<noteq> [] \<and> \<not> (lacks_shape nd \<or> low_rank nd \<or> extents_differ nd))"
  by (rule validator_result)

theorem validator_contract_witness:
  "assert_correct_data_format example_data = Inr 3 \<and>
   list_all (well_shaped 3) (map snd example_data)"
proof -
  have "assert_correct_data_format example_data = Inr 3"
    by (simp add: assert_correct_data_format_def example_data_def host_array_def)
  with validator_contract [of example_data] show ?thesis by blast
qed

text \<open>
  C10. With an empty named dataset no check of the validator's loop fires; the validator
  raises \<^verbatim>\<open>ValueError\<close> when it takes the minimum of no sequence counts, and so does the
  construction of each of the three iterators.
\<close>

theorem empty_dataset_ValueError:
  "collect_nr_sequences [] [] = Inr [] \<and>
   assert_correct_data_format [] = Inl ValueError \<and>
   Undivided_init [] = Inl ValueError \<and>
   Online_init R sh vb seed [] = Inl ValueError \<and>
   Minibatches_init R b sh vb seed [] = Inl ValueError"
  by (simp add: assert_correct_data_format_def Undivided_init_def Online_init_def
      Minibatches_init_def)

section \<open>Construction\<close>

lemma sum_over_ok:
  "\<forall>kv \<in> set nd. f (snd kv) = Inr (g (snd kv)) \<Longrightarrow>
     sum_over f nd = Inr (sum_list (map (\<lambda>kv. g (snd kv)) nd))"
proof (induction nd)
  case Nil
  show ?case by simp
next
  case (Cons kv nd)
  obtain k v where kv: "kv = (k, v)" by (cases kv)
  with Cons show ?case by simp
qed

lemma rank3_arrays: "list_all rank3 (map snd nd) \<Longrightarrow> map snd nd = map Array (arrays_of nd)"
proof (induction nd rule: arrays_of.induct)
  case 1
  show ?case by simp
next
  case (2 k cs rest)
  then show ?case by (simp add: rank3_def)
next
  case (3 k a rest)
  then show ?case by simp
qed

lemma rank3_size_attr: "rank3 v \<Longrightarrow> size_attr v = Inr (case v of Array a \<Rightarrow> size_of a | Plain cs \<Rightarrow> 0)"
  by (cases v) (simp_all add: rank3_def)

lemma rank3_column_size:
  "rank3 v \<Longrightarrow> column_size v = Inr (case v of Array a \<Rightarrow> column_elems a | Plain cs \<Rightarrow> 0)"
  by (cases v) (auto simp add: rank3_def column_elems_def split: list.splits)

lemma rank3_chunk_size:
  "rank3 v \<Longrightarrow> chunk_size b v = Inr ((case v of Array a \<Rightarrow> column_elems a | Plain cs \<Rightarrow> 0) * b)"
  by (simp add: chunk_size_def rank3_column_size)

lemma valid_rank3: "assert_correct_data_format nd = Inr n \<Longrightarrow> list_all rank3 (map snd nd)"
  using validator_result [of nd] by (auto simp add: list_all_iff rank3_well_shaped)

lemma valid_well_shaped:
  "assert_correct_data_format nd = Inr n \<Longrightarrow> list_all (well_shaped n) (map snd nd)"
  using validator_result [of nd] by blast


lemma sum_list_arrays:
  "list_all rank3 (map snd nd) \<Longrightarrow>
     sum_list (map (\<lambda>kv. case snd kv of Array a \<Rightarrow> f a | Plain cs \<Rightarrow> 0) nd) =
     sum_list (map f (arrays_of nd))"
  by (induction nd rule: arrays_of.induct) (simp_all add: rank3_def)

lemma Undivided_init_valid:
  assumes "assert_correct_data_format nd = Inr n"
  shows "Undivided_init nd = Inr \<lparr>Undivided.data = nd, total_size = sum_list (map size_of (arrays_of nd))\<rparr>"
proof -
  from assms have r: "list_all rank3 (map snd nd)" by (rule valid_rank3)
  then have "\<forall>kv \<in> set nd. size_attr (snd kv) = Inr (case snd kv of Array a \<Rightarrow> size_of a | Plain cs \<Rightarrow> 0)"
    by (simp add: list_all_iff rank3_size_attr)
  from sum_over_ok [of nd size_attr, OF this] assms sum_list_arrays [OF r, of size_of]
  show ?thesis by (simp add: Undivided_init_def)
qed

lemma Online_init_valid:
  assumes "assert_correct_data_format nd = Inr n"
  shows "Online_init R sh vb seed nd =
     Inr \<lparr>Online.rnd = seed_state R seed, nr_sequences = n, data = nd, shuffle = sh, verbose = vb,
          sample_size = sum_list (map column_elems (arrays_of nd))\<rparr>"
proof -
  from assms have r: "list_all rank3 (map snd nd)" by (rule valid_rank3)
  then have "\<forall>kv \<in> set nd. column_size (snd kv) = Inr (case snd kv of Array a \<Rightarrow> column_elems a | Plain cs \<Rightarrow> 0)"
    by (simp add: list_all_iff rank3_column_size)
  from sum_over_ok [of nd column_size, OF this] assms sum_list_arrays [OF r, of column_elems]
  show ?thesis by (simp add: Online_init_def)
qed

lemma Minibatches_init_valid:
  assumes "assert_correct_data_format nd = Inr n"
  shows "Minibatches_init R b sh vb seed nd =
     Inr \<lparr>Minibatches.rnd = seed_state R seed, nr_sequences = n, data = nd, shuffle = sh, verbose = vb,
          batch_size = b, sample_size = sum_list (map (\<lambda>a. column_elems a * b) (arrays_of nd))\<rparr>"
proof -
  from assms have r: "list_all rank3 (map snd nd)" by (rule valid_rank3)
  then have "\<forall>kv \<in> set nd. chunk_size b (snd kv) = Inr ((case snd kv of Array a \<Rightarrow> column_elems a | Plain cs \<Rightarrow> 0) * b)"
    by (simp add: list_all_iff rank3_chunk_size)
  from sum_over_ok [of nd "chunk_size b" "\<lambda>v. (case v of Array a \<Rightarrow> column_elems a | Plain cs \<Rightarrow> 0) * b", OF this]
  have "sum_over (chunk_size b) nd = Inr (sum_list (map (\<lambda>kv. (case snd kv of Array a \<Rightarrow> column_elems a | Plain cs \<Rightarrow> 0) * b) nd))" .
  moreover have "(\<lambda>kv::string \<times> pyval. (case snd kv of Array a \<Rightarrow> column_elems a | Plain cs \<Rightarrow> 0) * b) =
      (\<lambda>kv. case snd kv of Array a \<Rightarrow> column_elems a * b | Plain cs \<Rightarrow> 0)"
    by (auto split: pyval.splits)
  ultimately show ?thesis
    using assms sum_list_arrays [OF r, of "\<lambda>a. column_elems a * b"]
    by (simp add: Minibatches_init_def)
qed

lemma init_Inl:
  assumes "assert_correct_data_format nd = Inl e"
  shows "Undivided_init nd = Inl e" "Online_init R sh vb seed nd = Inl e"
    "Minibatches_init R b sh vb seed nd = Inl e"
  using assms by (simp_all add: Undivided_init_def Online_init_def Minibatches_init_def)

lemma init_validation_error:
  assumes "Undivided_init nd = Inl e \<or> Online_init R sh vb seed nd = Inl e \<or>
           Minibatches_init R b sh vb seed nd = Inl e"
  shows "assert_correct_data_format nd = Inl e"
proof (cases "assert_correct_data_format nd")
  case (Inl e')
  with assms show ?thesis
    by (simp add: Undivided_init_def Online_init_def Minibatches_init_def)
next
  case (Inr n)
  with assms Undivided_init_valid [OF Inr]
    Online_init_valid [OF Inr, where R = R and sh = sh and vb = vb and seed = seed]
    Minibatches_init_valid [OF Inr, where R = R and b = b and sh = sh and vb = vb and seed = seed]
  show ?thesis by auto
qed

section \<open>The messages of the validation errors\<close>

lemma sublist_trans: "sublist xs ys \<Longrightarrow> sublist ys zs \<Longrightarrow> sublist xs zs"
  unfolding sublist_def by (metis append.assoc)

lemma sublist_join: "s \<in> set xs \<Longrightarrow> sublist s (join sep xs)"
proof (induction sep xs rule: join.induct)
  case (1 sep)
  then show ?case by simp
next
  case (2 sep x)
  then show ?case by simp
next
  case (3 sep x y ys)
  show ?case
  proof (cases "s = x")
    case True
    then show ?thesis by simp
  next
    case False
    with 3 have "sublist s (join sep (y # ys))" by simp
    then obtain ps ss where "join sep (y # ys) = ps @ s @ ss" by (auto simp: sublist_def)
    then have "join sep (x # y # ys) = (x @ sep @ ps) @ s @ ss" by simp
    then show ?thesis unfolding sublist_def by blast
  qed
qed

lemma sublist_count_message:
  assumes "kv \<in> set d"
  shows "sublist (repr_str (fst kv)) (count_message d)" "sublist (show_nat (snd kv)) (count_message d)"
proof -
  have item: "sublist (format_item kv) (count_message d)"
  proof -
    from assms have "format_item kv \<in> set (map format_item d)" by simp
    then have "sublist (format_item kv) (join '', '' (map format_item d))" by (rule sublist_join)
    then obtain ps ss where "join '', '' (map format_item d) = ps @ format_item kv @ ss"
      by (auto simp: sublist_def)
    then have "count_message d =
        (''The number of sequences of all inputs must be equal, but got '' @ ''{'' @ ps) @ format_item kv @ (ss @ ''}'')"
      by (simp add: count_message_def format_dict_def)
    then show ?thesis unfolding sublist_def by blast
  qed
  have "sublist (repr_str (fst kv)) (format_item kv)" by (simp add: format_item_def)
  then show "sublist (repr_str (fst kv)) (count_message d)" using item by (rule sublist_trans)
  have "format_item kv = (repr_str (fst kv) @ '': '') @ show_nat (snd kv)" by (simp add: format_item_def)
  then have "sublist (show_nat (snd kv)) (format_item kv)" by (metis sublist_append_leftI)
  then show "sublist (show_nat (snd kv)) (count_message d)" using item by (rule sublist_trans)
qed

lemma low_rank_Cons:
  "low_rank ((k, v) # rest) \<longleftrightarrow>
     (case v of Plain cs \<Rightarrow> False | Array a \<Rightarrow> length (shape a) < 3) \<or> low_rank rest"
  by (simp add: low_rank_def)

lemma collect_error:
  "collect_nr_sequences nd acc = Inl e \<Longrightarrow>
     (\<exists>name cs. (name, Plain cs) \<in> set nd \<and> e = IteratorValidationError (no_shape_message name)) \<or>
     (low_rank nd \<and> e = IteratorValidationError rank_message)"
proof (induction nd acc rule: collect_nr_sequences.induct)
  case (1 nr_sequences)
  then show ?case by simp
next
  case (2 name cs rest nr_sequences)
  then show ?case by auto
next
  case (3 name a rest nr_sequences)
  show ?case
  proof (cases "length (shape a) < 3")
    case True
    with "3.prems" show ?thesis by (simp add: low_rank_Cons)
  next
    case False
    with "3.prems" have "collect_nr_sequences rest (nr_sequences @ [(name, shape a ! 1)]) = Inl e"
      by simp
    with False "3.IH" show ?thesis by (auto simp add: low_rank_Cons)
  qed
qed

lemma validator_messages:
  assumes "assert_correct_data_format nd = Inl (IteratorValidationError msg)"
  shows "(\<exists>name cs. (name, Plain cs) \<in> set nd \<and> msg = no_shape_message name \<and> sublist name msg) \<or>
     (low_rank nd \<and> msg = rank_message) \<or>
     (extents_differ nd \<and> msg = count_message (counts_of nd) \<and>
        (\<forall>kv \<in> set nd. sublist (repr_str (fst kv)) msg \<and> sublist (show_nat (axis1 (snd kv))) msg))"
proof (cases "list_all rank3 (map snd nd)")
  case True
  from validator_result [of nd] assms have "lacks_shape nd \<or> low_rank nd \<or> extents_differ nd"
    by blast
  with True rank3_iff [of nd] have diff: "extents_differ nd" by blast
  from validator_rank3 [OF True] assms have msg: "msg = count_message (counts_of nd)"
    by (auto split: list.splits if_splits)
  have "sublist (repr_str (fst kv)) msg \<and> sublist (show_nat (axis1 (snd kv))) msg" if "kv \<in> set nd" for kv
  proof -
    from that have "(fst kv, axis1 (snd kv)) \<in> set (counts_of nd)" by (auto simp: counts_of_def)
    from sublist_count_message [OF this] msg show ?thesis by simp
  qed
  with diff msg show ?thesis by blast
next
  case False
  obtain e where e: "collect_nr_sequences nd [] = Inl e"
    using False collect_Inr [of nd "[]"] by (cases "collect_nr_sequences nd []") auto
  with assms have "e = IteratorValidationError msg"
    by (simp add: assert_correct_data_format_def)
  with collect_error [OF e] show ?thesis
    by (auto simp add: no_shape_message_def)
qed

text \<open>
  C8, as the code has it. A validation error raised by the construction of an iterator
  is one of three: for a value without a shape, the message starts with the name of that
  entry; for a value of fewer than 3 axes, the message is a fixed sentence; for differing
  sequence counts, the message lists every name with its count. In particular two arrays
  of at least 3 axes whose axis-1 extents differ make each construction fail with a
  validation error whose message contains both counts.
\<close>

theorem validation_error_messages:
  "(Undivided_init nd = Inl (IteratorValidationError msg) \<or>
    Online_init R sh vb seed nd = Inl (IteratorValidationError msg) \<or>
    Minibatches_init R b sh vb seed nd = Inl (IteratorValidationError msg) \<longrightarrow>
      (\<exists>name cs. (name, Plain cs) \<in> set nd \<and> msg = no_shape_message name \<and> sublist name msg) \<or>
      (low_rank nd \<and> msg = rank_message) \<or>
      (extents_differ nd \<and> msg = count_message (counts_of nd) \<and>
         (\<forall>kv \<in> set nd. sublist (repr_str (fst kv)) msg \<and> sublist (show_nat (axis1 (snd kv))) msg))) \<and>
   (3 \<le> length (shape a1) \<and> 3 \<le> length (shape a2) \<and> shape a1 ! 1 \<noteq> shape a2 ! 1 \<longrightarrow>
      (\<exists>m. Undivided_init [(k1, Array a1), (k2, Array a2)] = Inl (IteratorValidationError m) \<and>
           Online_init R sh vb seed [(k1, Array a1), (k2, Array a2)] = Inl (IteratorValidationError m) \<and>
           Minibatches_init R b sh vb seed [(k1, Array a1), (k2, Array a2)] = Inl (IteratorValidationError m) \<and>
           sublist (show_nat (shape a1 ! 1)) m \<and> sublist (show_nat (shape a2 ! 1)) m))"
proof (intro conjI impI)
  assume "Undivided_init nd = Inl (IteratorValidationError msg) \<or>
    Online_init R sh vb seed nd = Inl (IteratorValidationError msg) \<or>
    Minibatches_init R b sh vb seed nd = Inl (IteratorValidationError msg)"
  then have "assert_correct_data_format nd = Inl (IteratorValidationError msg)"
    by (rule init_validation_error)
  then show "(\<exists>name cs. (name, Plain cs) \<in> set nd \<and> msg = no_shape_message name \<and> sublist name msg) \<or>
      (low_rank nd \<and> msg = rank_message) \<or>
      (extents_differ nd \<and> msg = count_message (counts_of nd) \<and>
         (\<forall>kv \<in> set nd. sublist (repr_str (fst kv)) msg \<and> sublist (show_nat (axis1 (snd kv))) msg))"
    by (rule validator_messages)
next
  let ?nd = "[(k1, Array a1), (k2, Array a2)]"
  let ?m = "count_message (counts_of ?nd)"
  assume a: "3 \<le> length (shape a1) \<and> 3 \<le> length (shape a2) \<and> shape a1 ! 1 \<noteq> shape a2 ! 1"
  then have r: "list_all rank3 (map snd ?nd)" by (simp add: rank3_def)
  from validator_rank3 [OF r] a
  have v: "assert_correct_data_format ?nd = Inl (IteratorValidationError ?m)"
    by (auto simp add: counts_of_def)
  have "sublist (show_nat (snd (k1, shape a1 ! 1))) ?m"
    by (rule sublist_count_message) (simp add: counts_of_def)
  moreover have "sublist (show_nat (snd (k2, shape a2 ! 1))) ?m"
    by (rule sublist_count_message) (simp add: counts_of_def)
  ultimately have "sublist (show_nat (shape a1 ! 1)) ?m" "sublist (show_nat (shape a2 ! 1)) ?m"
    by simp_all
  with init_Inl [OF v]
  show "\<exists>m. Undivided_init ?nd = Inl (IteratorValidationError m) \<and>
           Online_init R sh vb seed ?nd = Inl (IteratorValidationError m) \<and>
           Minibatches_init R b sh vb seed ?nd = Inl (IteratorValidationError m) \<and>
           sublist (show_nat (shape a1 ! 1)) m \<and> sublist (show_nat (shape a2 ! 1)) m"
    by blast
qed

theorem validation_error_messages_witness:
  "Undivided_init mismatched_data =
     Inl (IteratorValidationError (count_message [(''x'', 3), (''y'', 4)])) \<and>
   extents_differ mismatched_data \<and>
   sublist ''3'' (count_message [(''x'', 3), (''y'', 4)]) \<and>
   sublist ''4'' (count_message [(''x'', 3), (''y'', 4)])"
proof -
  let ?m = "count_message [(''x'', 3), (''y'', 4)]"
  have u: "Undivided_init mismatched_data = Inl (IteratorValidationError ?m)"
    by (simp add: Undivided_init_def assert_correct_data_format_def mismatched_data_def
        host_array_def)
  have n: "?m \<noteq> rank_message"
    by (simp add: count_message_def rank_message_def)
  have p: "\<not> (\<exists>name cs. (name, Plain cs) \<in> set mismatched_data)"
    by (simp add: mismatched_data_def host_array_def)
  from validation_error_messages [of mismatched_data ?m] u n p
  have d: "extents_differ mismatched_data" and
    a: "\<forall>kv \<in> set mismatched_data. sublist (show_nat (axis1 (snd kv))) ?m"
    by blast+
  have x: "(''x'', host_array 0 [5, 3, 2]) \<in> set mismatched_data"
    and y: "(''y'', host_array 1 [5, 4, 2]) \<in> set mismatched_data"
    by (simp_all add: mismatched_data_def)
  have s3: "show_nat 3 = ''3''" and s4: "show_nat 4 = ''4''"
    by (simp_all add: show_nat.simps)
  from a x have "sublist (show_nat (axis1 (host_array 0 [5, 3, 2]))) ?m" by fastforce
  then have "sublist ''3'' ?m" by (simp add: host_array_def s3)
  moreover from a y have "sublist (show_nat (axis1 (host_array 1 [5, 4, 2]))) ?m" by fastforce
  then have "sublist ''4'' ?m" by (simp add: host_array_def s4)
  ultimately show ?thesis using u d by simp
qed

text \<open>
  C8, as stated, fails for the rank check: for the single entry \<open>x\<close> of shape \<open>(7, 9)\<close> the
  message names neither the entry nor any of its extents.
\<close>

theorem rank_error_names_nothing:
  "Undivided_init rank2_data = Inl (IteratorValidationError rank_message) \<and>
   \<not> sublist ''x'' rank_message \<and>
   \<not> sublist (show_nat 7) rank_message \<and>
   \<not> sublist (show_nat 9) rank_message"
proof -
  have "Undivided_init rank2_data = Inl (IteratorValidationError rank_message)"
    by (simp add: Undivided_init_def assert_correct_data_format_def rank2_data_def host_array_def)
  moreover have "\<not> sublist ''x'' rank_message"
    unfolding rank_message_def by code_simp
  moreover have "\<not> sublist (show_nat 7) rank_message"
    unfolding rank_message_def by code_simp
  moreover have "\<not> sublist (show_nat 9) rank_message"
    unfolding rank_message_def by code_simp
  ultimately show ?thesis by simp
qed

section \<open>Slices, staging and runs\<close>

lemma min_diff_le: "min (x + b) n - min x n \<le> (b::nat)"
  by arith

lemma chunk_extent_le: "chunk_extent n b idx \<le> b"
  unfolding chunk_extent_def using min_diff_le [of "idx * b" b n] by (simp add: add.commute)

lemma clip_slice_eq: "clip_slice n start stop = (min start n, min stop n - min start n)"
  by (auto simp add: clip_slice_def Let_def)

lemma chunk_rank3: "rank3 (Array a) \<Longrightarrow> chunk b idx (Array a) = Inr (chunk_view b idx a)"
  by (simp add: rank3_def slice_axis_def clip_slice_eq chunk_view_def chunk_extent_def)

lemma column_chunk: "column idx v = chunk 1 idx v"
  by (cases v) simp_all

lemma prod_list_axis1:
  fixes xs :: "nat list"
  shows "2 \<le> length xs \<Longrightarrow> prod_list (xs[Suc 0 := l]) = hd xs * prod_list (drop 2 xs) * l"
proof -
  assume "2 \<le> length xs"
  then obtain t n fs where "xs = t # n # fs"
    by (cases xs; cases "tl xs") auto
  then show ?thesis by (simp add: ac_simps)
qed

lemma size_chunk_view:
  "2 \<le> length (shape a) \<Longrightarrow>
     size_of (chunk_view b idx a) = column_elems a * chunk_extent (shape a ! 1) b idx"
  by (simp add: size_of_def chunk_view_def column_elems_def prod_list_axis1)

lemma size_chunk_view_le:
  "2 \<le> length (shape a) \<Longrightarrow> size_of (chunk_view b idx a) \<le> column_elems a * b"
  by (simp add: size_chunk_view chunk_extent_le)

lemma stage_step:
  assumes "shape arr = [n]" "strides arr = [s]" "j + size_of src \<le> n"
  shows "slice_axis 0 arr j (j + size_of src) =
           Inr (arr\<lparr>offset := offset arr + int j * s, shape := [size_of src]\<rparr>)"
    and "reshape (arr\<lparr>offset := offset arr + int j * s, shape := [size_of src]\<rparr>) (shape src) =
           Inr (arr\<lparr>offset := offset arr + int j * s, shape := shape src,
                    strides := c_strides s (shape src)\<rparr>)"
  using assms
  by (simp_all add: slice_axis_def clip_slice_eq reshape_def size_of_def min_def)

lemma stage_ok:
  assumes "shape arr = [n]" "strides arr = [s]"
    and "list_all rank3 (map snd nd)"
    and "\<forall>a \<in> set (arrays_of nd). sel (Array a) = Inr (f a)"
    and "j + sum_list (map (\<lambda>a. size_of (f a)) (arrays_of nd)) \<le> n"
  shows "stage arr sel nd j dev =
    (copy_events (staged arr j (map f (arrays_of nd))) (map f (arrays_of nd)),
     Inr (dev @ named nd (staged arr j (map f (arrays_of nd)))))"
  using assms(3-5)
proof (induction nd arbitrary: j dev rule: arrays_of.induct)
  case 1
  show ?case by (simp add: copy_events_def named_def)
next
  case (2 k cs rest)
  then show ?case by (simp add: rank3_def)
next
  case (3 k a rest)
  let ?src = "f a"
  from "3.prems" have sel: "sel (Array a) = Inr ?src" by simp
  from "3.prems" have fit: "j + size_of ?src \<le> n" by simp
  from "3.prems" have rest: "list_all rank3 (map snd rest)"
    "\<forall>a \<in> set (arrays_of rest). sel (Array a) = Inr (f a)"
    "(j + size_of ?src) + sum_list (map (\<lambda>a. size_of (f a)) (arrays_of rest)) \<le> n"
    by simp_all
  note ih = "3.IH" [OF rest, of "dev @ [(k, Array (arr\<lparr>offset := offset arr + int j * s, shape := shape ?src,
                    strides := c_strides s (shape ?src)\<rparr>))]"]
  show ?case
    using sel stage_step [OF assms(1,2) fit] ih assms(2)
    by (simp add: copy_events_def named_def)
qed

lemma select_all_ok:
  assumes "list_all rank3 (map snd nd)"
    and "\<forall>a \<in> set (arrays_of nd). sel (Array a) = Inr (f a)"
  shows "select_all sel nd = Inr (named nd (map f (arrays_of nd)))"
  using assms
proof (induction nd rule: arrays_of.induct)
  case 1
  show ?case by (simp add: named_def)
next
  case (2 k cs rest)
  then show ?case by (simp add: rank3_def)
next
  case (3 k a rest)
  then show ?case by (simp add: named_def)
qed

lemma run_batches_ok:
  "\<forall>idx \<in> set indices. body idx = (evs idx, Inr (batch idx)) \<Longrightarrow>
     run_batches body indices =
       (concat (map (\<lambda>idx. evs idx @ [Yield (batch idx)]) indices), None)"
  by (induction indices) simp_all

lemma yields_append: "yields (xs @ ys) = yields xs @ yields ys"
  by (induction xs rule: yields.induct) simp_all

lemma allocations_append: "allocations (xs @ ys) = allocations xs @ allocations ys"
  by (induction xs rule: allocations.induct) simp_all

lemma copies_append: "copies (xs @ ys) = copies xs @ copies ys"
  by (induction xs rule: copies.induct) simp_all

lemma yields_copy_events: "yields (copy_events dsts srcs) = []"
  unfolding copy_events_def by (induction dsts srcs rule: list_induct2') simp_all

lemma allocations_copy_events: "allocations (copy_events dsts srcs) = []"
  unfolding copy_events_def by (induction dsts srcs rule: list_induct2') simp_all

lemma copies_copy_events: "copies (copy_events dsts srcs) = zip dsts srcs"
  unfolding copy_events_def by (induction dsts srcs rule: list_induct2') simp_all

lemma length_staged: "length (staged arr j srcs) = length srcs"
  by (induction srcs arbitrary: j) simp_all

lemma shape_staged: "map shape (staged arr j srcs) = map shape srcs"
  by (induction srcs arbitrary: j) simp_all

lemma buf_staged: "a \<in> set (staged arr j srcs) \<Longrightarrow> buf a = buf arr"
  by (induction srcs arbitrary: j) auto

lemma length_arrays_of: "list_all rank3 (map snd nd) \<Longrightarrow> length (arrays_of nd) = length nd"
  using rank3_arrays [of nd] by (metis length_map)

lemma named_fst: "length as = length nd \<Longrightarrow> map fst (named nd as) = map fst nd"
  by (simp add: named_def)

lemma named_snd: "length as = length nd \<Longrightarrow> map snd (named nd as) = map Array as"
  by (simp add: named_def)

section \<open>Undivided\<close>

text \<open>
  For a handler whose marker class is not a class of \<^verbatim>\<open>dict\<close>, a call allocates one
  buffer, copies every array into its slice of it and yields one batch, with the names and
  the shapes of the dataset; then the generator returns.
\<close>

lemma Undivided_call_copies:
  assumes "Undivided_init nd = Inr it" and "array_type h \<notin> set dict_classes"
  shows "Undivided_call it h v =
    (Allocate (total_size it) (allocate h (total_size it))
       # copy_events (staged (allocate h (total_size it)) 0 (arrays_of nd)) (arrays_of nd)
       @ [Yield (named nd (staged (allocate h (total_size it)) 0 (arrays_of nd)))],
     None)"
proof -
  obtain n where n: "assert_correct_data_format nd = Inr n"
    using assms(1) by (cases "assert_correct_data_format nd") (simp_all add: Undivided_init_def)
  from Undivided_init_valid [OF n] assms(1)
  have it: "Undivided.data it = nd" "total_size it = sum_list (map size_of (arrays_of nd))"
    by auto
  let ?arr = "allocate h (total_size it)"
  have "stage ?arr whole nd 0 [] =
      (copy_events (staged ?arr 0 (map (\<lambda>a. a) (arrays_of nd))) (map (\<lambda>a. a) (arrays_of nd)),
       Inr ([] @ named nd (staged ?arr 0 (map (\<lambda>a. a) (arrays_of nd)))))"
  proof (rule stage_ok)
    show "shape ?arr = [total_size it]" "strides ?arr = [1]" by (simp_all add: allocate_def)
    show "list_all rank3 (map snd nd)" using n by (rule valid_rank3)
    show "\<forall>a \<in> set (arrays_of nd). whole (Array a) = Inr a" by simp
    show "0 + sum_list (map size_of (arrays_of nd)) \<le> total_size it" using it by simp
  qed
  then show ?thesis using assms(2) it by (simp add: Undivided_call_def Let_def)
qed

lemma Undivided_one_batch:
  assumes "Undivided_init nd = Inr it" and "array_type h \<notin> set dict_classes"
  shows "\<exists>evs batch. Undivided_call it h v = (evs, None) \<and> yields evs = [batch] \<and>
     map fst batch = map fst nd \<and>
     map snd batch = map Array (staged (allocate h (total_size it)) 0 (arrays_of nd)) \<and>
     map shape (staged (allocate h (total_size it)) 0 (arrays_of nd)) = map shape (arrays_of nd) \<and>
     map snd nd = map Array (arrays_of nd)"
proof -
  obtain n where n: "assert_correct_data_format nd = Inr n"
    using assms(1) by (cases "assert_correct_data_format nd") (simp_all add: Undivided_init_def)
  then have r: "list_all rank3 (map snd nd)" by (rule valid_rank3)
  let ?dsts = "staged (allocate h (total_size it)) 0 (arrays_of nd)"
  have l: "length ?dsts = length nd" by (simp add: length_staged length_arrays_of [OF r])
  show ?thesis
    using Undivided_call_copies [OF assms, of v] named_fst [OF l] named_snd [OF l]
      rank3_arrays [OF r]
    by (simp add: yields_append yields_copy_events shape_staged)
qed

text \<open>
  C2, at a dataset of two host arrays and the handler whose marker class is their class:
  every array is backend-resident, yet the call allocates a buffer of 15 elements, copies
  both arrays and yields a batch that is not the original mapping. The test of line 51
  asks whether the dict is an instance of the marker class, not whether the arrays are.
\<close>

theorem Undivided_resident_data_is_copied:
  "Undivided_init example_data = Inr example_undivided \<and>
   \<not> need_copy_of example_data numpy_handler \<and>
   allocations (fst (Undivided_call example_undivided numpy_handler False)) =
     [(15, allocate numpy_handler 15)] \<and>
   length (copies (fst (Undivided_call example_undivided numpy_handler False))) = 2 \<and>
   yields (fst (Undivided_call example_undivided numpy_handler False)) \<noteq> [example_data]"
  by code_simp


section \<open>The runs of Online and Minibatches on validated data\<close>

text \<open>
  On validated data no step of a call raises: every selection succeeds, the buffer has room
  for the selections of one batch, and the reshape keeps the element count. The run is the
  allocation, if any, followed by the handler calls and the batch of each index in turn.
\<close>

lemma rank3_shapes:
  assumes "list_all rank3 (map snd nd)" and "a \<in> set (arrays_of nd)"
  shows "3 \<le> length (shape a)"
proof -
  from assms(2) have "Array a \<in> set (map Array (arrays_of nd))" by simp
  with rank3_arrays [OF assms(1)] have "Array a \<in> set (map snd nd)" by simp
  with assms(1) have "rank3 (Array a)" by (auto simp add: list_all_iff)
  then show ?thesis by (simp add: rank3_def)
qed

lemma chunk_arrays:
  assumes "list_all rank3 (map snd nd)"
  shows "\<forall>a \<in> set (arrays_of nd). chunk b idx (Array a) = Inr (chunk_view b idx a)"
proof
  fix a assume "a \<in> set (arrays_of nd)"
  with assms have "3 \<le> length (shape a)" by (rule rank3_shapes)
  then have "rank3 (Array a)" by (simp add: rank3_def)
  then show "chunk b idx (Array a) = Inr (chunk_view b idx a)" by (rule chunk_rank3)
qed

lemma chunk_sources_fit:
  assumes "list_all rank3 (map snd nd)"
  shows "sum_list (map (\<lambda>a. size_of (chunk_view b idx a)) (arrays_of nd)) \<le>
         sum_list (map (\<lambda>a. column_elems a * b) (arrays_of nd))"
proof (rule sum_list_mono)
  fix a assume "a \<in> set (arrays_of nd)"
  with assms have "3 \<le> length (shape a)" by (rule rank3_shapes)
  then show "size_of (chunk_view b idx a) \<le> column_elems a * b"
    by (simp add: size_chunk_view_le)
qed

lemma make_batch_view:
  assumes "list_all rank3 (map snd nd)"
  shows "make_batch nd False None (chunk b idx) =
     (chunk_events nd None b idx, Inr (chunk_batch nd None b idx))"
proof -
  from select_all_ok [OF assms chunk_arrays [OF assms]] show ?thesis
    by (simp add: make_batch_def chunk_events_def chunk_batch_def chunk_sources_def)
qed

lemma make_batch_staged:
  assumes "list_all rank3 (map snd nd)"
    and "shape arr = [n]" "strides arr = [1]"
    and "sum_list (map (\<lambda>a. column_elems a * b) (arrays_of nd)) \<le> n"
  shows "make_batch nd True (Some arr) (chunk b idx) =
     (chunk_events nd (Some arr) b idx, Inr (chunk_batch nd (Some arr) b idx))"
proof -
  have sel: "\<forall>a \<in> set (arrays_of nd). chunk b idx (Array a) = Inr (chunk_view b idx a)"
    using assms(1) by (rule chunk_arrays)
  have fit: "0 + sum_list (map (\<lambda>a. size_of (chunk_view b idx a)) (arrays_of nd)) \<le> n"
    using chunk_sources_fit [OF assms(1), of b idx] assms(4) by simp
  from stage_ok [OF assms(2,3,1) sel fit, of "[]"] show ?thesis
    by (simp add: make_batch_def chunk_events_def chunk_batch_def chunk_sources_def)
qed

lemma make_batch_buffer:
  assumes "list_all rank3 (map snd nd)"
    and "sum_list (map (\<lambda>a. column_elems a * b) (arrays_of nd)) \<le> s"
  shows "make_batch nd (need_copy_of nd h) (buffer_of nd h s) (chunk b idx) =
     (chunk_events nd (buffer_of nd h s) b idx, Inr (chunk_batch nd (buffer_of nd h s) b idx))"
proof (cases "need_copy_of nd h")
  case True
  have "shape (allocate h s) = [s]" "strides (allocate h s) = [1]" by (simp_all add: allocate_def)
  from make_batch_staged [OF assms(1) this assms(2)] True show ?thesis
    by (simp add: buffer_of_def)
next
  case False
  with make_batch_view [OF assms(1)] show ?thesis by (simp add: buffer_of_def)
qed

lemma chunk_run_ok:
  assumes "list_all rank3 (map snd nd)"
    and "sum_list (map (\<lambda>a. column_elems a * b) (arrays_of nd)) \<le> s"
  shows "run_batches (\<lambda>idx. make_batch nd (need_copy_of nd h) (buffer_of nd h s) (chunk b idx)) indices =
     (chunk_run nd (buffer_of nd h s) b indices, None)"
  unfolding chunk_run_def
  by (rule run_batches_ok) (simp add: make_batch_buffer [OF assms])

lemma yields_chunk_run: "yields (chunk_run nd arr b indices) = map (chunk_batch nd arr b) indices"
  by (induction indices)
     (simp_all add: chunk_run_def yields_append chunk_events_def yields_copy_events split: option.splits)

lemma allocations_chunk_run: "allocations (chunk_run nd arr b indices) = []"
  by (induction indices)
     (simp_all add: chunk_run_def allocations_append chunk_events_def allocations_copy_events
        split: option.splits)

lemma copies_chunk_run:
  "copies (chunk_run nd arr b indices) =
     concat (map (\<lambda>idx. copies (chunk_events nd arr b idx)) indices)"
  by (induction indices) (simp_all add: chunk_run_def copies_append)

lemma Minibatches_call_run:
  assumes "Minibatches_init R b sh vb seed nd = Inr it"
    and "Minibatches_indices R it = Inr (indices, g)"
  shows "Minibatches_call R it h v =
    ((alloc_events (buffer_of nd h (Minibatches.sample_size it)) (Minibatches.sample_size it)
        @ chunk_run nd (buffer_of nd h (Minibatches.sample_size it)) b indices, None),
     it\<lparr>Minibatches.rnd := g\<rparr>)"
proof -
  obtain n where n: "assert_correct_data_format nd = Inr n"
    using assms(1) by (cases "assert_correct_data_format nd") (simp_all add: Minibatches_init_def)
  from Minibatches_init_valid [OF n, of R b sh vb seed] assms(1)
  have it: "Minibatches.data it = nd" "batch_size it = b"
    "Minibatches.sample_size it = sum_list (map (\<lambda>a. column_elems a * b) (arrays_of nd))"
    by auto
  have r: "list_all rank3 (map snd nd)" using n by (rule valid_rank3)
  have fit: "sum_list (map (\<lambda>a. column_elems a * b) (arrays_of nd)) \<le> Minibatches.sample_size it"
    using it by simp
  note run = chunk_run_ok [OF r fit, of h indices]
  show ?thesis
    unfolding Minibatches_call_def Let_def
    using assms(2) run it(1,2)
    by (simp add: buffer_of_def alloc_events_def)
qed

lemma column_chunk_fun: "column idx = chunk 1 idx"
  by (rule ext) (rule column_chunk)

lemma Online_call_run:
  assumes "Online_init R sh vb seed nd = Inr it"
  shows "Online_call R it h v =
    ((alloc_events (buffer_of nd h (Online.sample_size it)) (Online.sample_size it)
        @ chunk_run nd (buffer_of nd h (Online.sample_size it)) 1 (fst (Online_indices R it)), None),
     it\<lparr>Online.rnd := snd (Online_indices R it)\<rparr>)"
proof -
  obtain n where n: "assert_correct_data_format nd = Inr n"
    using assms(1) by (cases "assert_correct_data_format nd") (simp_all add: Online_init_def)
  from Online_init_valid [OF n, of R sh vb seed] assms(1)
  have it: "Online.data it = nd"
    "Online.sample_size it = sum_list (map column_elems (arrays_of nd))"
    by auto
  have r: "list_all rank3 (map snd nd)" using n by (rule valid_rank3)
  have fit: "sum_list (map (\<lambda>a. column_elems a * 1) (arrays_of nd)) \<le> Online.sample_size it"
    using it by simp
  obtain indices g where ix: "Online_indices R it = (indices, g)"
    by (cases "Online_indices R it")
  note run = chunk_run_ok [OF r fit, of h indices]
  show ?thesis
    unfolding Online_call_def Let_def column_chunk_fun
    using run it(1) ix
    by (simp add: buffer_of_def alloc_events_def)
qed

subsection \<open>Chunk arithmetic\<close>





lemma chunk_extent_full: "(idx + 1) * b \<le> n \<Longrightarrow> chunk_extent n b idx = b"
  by (simp add: chunk_extent_def min_def)






lemma permuted_set: "mset xs = mset [0..<k] \<Longrightarrow> set xs = {0..<k}"
  using mset_eq_setD by fastforce

subsection \<open>The batch of a chunk\<close>

lemma well_shaped_arrays:
  assumes "list_all (well_shaped n) (map snd nd)" and "a \<in> set (arrays_of nd)"
  shows "3 \<le> length (shape a) \<and> shape a ! 1 = n"
proof -
  from assms(1) have r: "list_all rank3 (map snd nd)"
    by (simp add: list_all_iff rank3_well_shaped)
  from assms(2) have "Array a \<in> set (map Array (arrays_of nd))" by simp
  with rank3_arrays [OF r] have "Array a \<in> set (map snd nd)" by simp
  with assms(1) have "well_shaped n (Array a)" by (auto simp add: list_all_iff)
  then show ?thesis by (simp add: well_shaped_def)
qed

lemma has_extent_named:
  assumes "length as = length nd"
    and "\<forall>s \<in> set (map shape as). 3 \<le> length s \<and> s ! 1 = e"
  shows "has_extent e (named nd as)"
  using assms by (simp add: has_extent_def named_snd list_all_iff well_shaped_def)

lemma chunk_sources_shapes:
  assumes "list_all (well_shaped n) (map snd nd)"
  shows "\<forall>s \<in> set (map shape (chunk_sources nd b idx)). 3 \<le> length s \<and> s ! 1 = chunk_extent n b idx"
proof
  fix s assume "s \<in> set (map shape (chunk_sources nd b idx))"
  then obtain a where a: "a \<in> set (arrays_of nd)" and
    s: "s = (shape a)[1 := chunk_extent (shape a ! 1) b idx]"
    by (auto simp add: chunk_sources_def chunk_view_def)
  from well_shaped_arrays [OF assms a] have "3 \<le> length (shape a)" "shape a ! 1 = n" by simp_all
  with s show "3 \<le> length s \<and> s ! 1 = chunk_extent n b idx" by simp
qed

lemma chunk_batch_extent:
  assumes "list_all (well_shaped n) (map snd nd)"
  shows "has_extent (chunk_extent n b idx) (chunk_batch nd arr b idx)"
    and "map fst (chunk_batch nd arr b idx) = map fst nd"
proof -
  from assms have r: "list_all rank3 (map snd nd)"
    by (simp add: list_all_iff rank3_well_shaped)
  have l: "length (chunk_sources nd b idx) = length nd"
    by (simp add: chunk_sources_def length_arrays_of [OF r])
  note s = chunk_sources_shapes [OF assms, of b idx]
  show "has_extent (chunk_extent n b idx) (chunk_batch nd arr b idx)"
  proof (cases arr)
    case None
    with has_extent_named [OF l s] show ?thesis by (simp add: chunk_batch_def)
  next
    case (Some a)
    have "length (staged a 0 (chunk_sources nd b idx)) = length nd"
      by (simp add: length_staged l)
    from has_extent_named [OF this] s Some show ?thesis
      by (simp add: chunk_batch_def shape_staged)
  qed
  show "map fst (chunk_batch nd arr b idx) = map fst nd"
    by (cases arr) (simp_all add: chunk_batch_def named_fst l length_staged)
qed



section \<open>Online: one batch per sequence\<close>

lemma yields_alloc_events: "yields (alloc_events arr s) = []"
  by (cases arr) (simp_all add: alloc_events_def)

lemma mset_rotate1_eq: "mset (rotate1 xs) = mset xs"
  by (cases xs) simp_all

lemma mset_rotate_eq: "mset (rotate n xs) = mset xs"
  by (induction n) (simp_all add: mset_rotate1_eq)

lemma permuting_rotating: "permuting rotating"
  by (simp add: permuting_def rotating_def mset_rotate_eq mset_rotate1_eq)

lemma Online_init_fields:
  assumes "Online_init R sh vb seed nd = Inr it"
  shows "assert_correct_data_format nd = Inr (Online.nr_sequences it)"
    and "Online.data it = nd" and "Online.shuffle it = sh" and "Online.rnd it = seed_state R seed"
proof -
  obtain n where n: "assert_correct_data_format nd = Inr n"
    using assms by (cases "assert_correct_data_format nd") (simp_all add: Online_init_def)
  from Online_init_valid [OF n, of R sh vb seed] assms n
  show "assert_correct_data_format nd = Inr (Online.nr_sequences it)"
    and "Online.data it = nd" and "Online.shuffle it = sh" and "Online.rnd it = seed_state R seed"
    by auto
qed

lemma Minibatches_init_fields:
  assumes "Minibatches_init R b sh vb seed nd = Inr it"
  shows "assert_correct_data_format nd = Inr (Minibatches.nr_sequences it)"
    and "Minibatches.data it = nd" and "Minibatches.shuffle it = sh"
    and "Minibatches.rnd it = seed_state R seed" and "batch_size it = b"
proof -
  obtain n where n: "assert_correct_data_format nd = Inr n"
    using assms by (cases "assert_correct_data_format nd") (simp_all add: Minibatches_init_def)
  from Minibatches_init_valid [OF n, of R b sh vb seed] assms n
  show "assert_correct_data_format nd = Inr (Minibatches.nr_sequences it)"
    and "Minibatches.data it = nd" and "Minibatches.shuffle it = sh"
    and "Minibatches.rnd it = seed_state R seed" and "batch_size it = b"
    by auto
qed

lemma Online_indices_permutation:
  "permuting R \<Longrightarrow> mset (fst (Online_indices R it)) = mset [0..<Online.nr_sequences it]"
  by (simp add: Online_indices_def permuting_def Let_def)

text \<open>
  C4. For a dataset that passes validation with sequence count \<open>N\<close> (\<open>N = 0\<close> included) and
  a generator whose shuffle permutes, one call of the Online iterator returns after
  yielding exactly \<open>N\<close> batches; every batch has the names of the dataset and axis-1 extent
  1 in every array; the indices the call visits are a permutation of \<open>0..N-1\<close>; and the
  batches are, in order, the batches of those indices.
\<close>

theorem Online_yields_each_sequence_once:
  assumes "Online_init R sh vb seed nd = Inr it" and "permuting R"
    and "Online_call R it h v = ((evs, out), it')"
  shows "out = None \<and>
     assert_correct_data_format nd = Inr (Online.nr_sequences it) \<and>
     length (yields evs) = Online.nr_sequences it \<and>
     (\<forall>batch \<in> set (yields evs). has_extent 1 batch \<and> map fst batch = map fst nd) \<and>
     mset (fst (Online_indices R it)) = mset [0..<Online.nr_sequences it] \<and>
     yields evs =
       map (chunk_batch nd (buffer_of nd h (Online.sample_size it)) 1) (fst (Online_indices R it))"
proof -
  let ?N = "Online.nr_sequences it"
  let ?ix = "fst (Online_indices R it)"
  let ?arr = "buffer_of nd h (Online.sample_size it)"
  note f = Online_init_fields [OF assms(1)]
  from f(1) have w: "list_all (well_shaped ?N) (map snd nd)" by (rule valid_well_shaped)
  from Online_call_run [OF assms(1), of h v] assms(3)
  have out: "out = None" and evs: "evs = alloc_events ?arr (Online.sample_size it) @ chunk_run nd ?arr 1 ?ix"
    by simp_all
  have y: "yields evs = map (chunk_batch nd ?arr 1) ?ix"
    by (simp add: evs yields_append yields_alloc_events yields_chunk_run)
  have p: "mset ?ix = mset [0..<?N]" using assms(2) by (rule Online_indices_permutation)
  then have len: "length ?ix = ?N" using mset_eq_length by fastforce
  have "has_extent 1 batch \<and> map fst batch = map fst nd" if "batch \<in> set (yields evs)" for batch
  proof -
    from that y obtain idx where idx: "idx \<in> set ?ix" and b: "batch = chunk_batch nd ?arr 1 idx"
      by auto
    from idx permuted_set [OF p] have "idx < ?N" by simp
    then have "chunk_extent ?N 1 idx = 1" by (simp add: chunk_extent_full)
    with chunk_batch_extent [OF w, where b = 1 and idx = idx and arr = ?arr] b show ?thesis by simp
  qed
  with out f(1) y p len show ?thesis by simp
qed

theorem Online_yields_each_sequence_once_witness:
  "permuting rotating \<and>
   Online_init rotating True None (Some 1) example_data = Inr example_online \<and>
   snd (fst (Online_call rotating example_online gpu_handler False)) = None \<and>
   length (yields (fst (fst (Online_call rotating example_online gpu_handler False)))) = 3 \<and>
   mset (fst (Online_indices rotating example_online)) = mset [0..<3]"
proof -
  have i: "Online_init rotating True None (Some 1) example_data = Inr example_online"
    by code_simp
  have n: "Online.nr_sequences example_online = 3" by (simp add: example_online_def)
  obtain evs out it' where c: "Online_call rotating example_online gpu_handler False = ((evs, out), it')"
    by (metis surj_pair)
  note t = Online_yields_each_sequence_once [OF i permuting_rotating c, unfolded n]
  from t have "out = None" by blast
  moreover from t have "length (yields evs) = 3" by blast
  moreover from t have "mset (fst (Online_indices rotating example_online)) = mset [0..<3]"
    by blast
  ultimately show ?thesis using c permuting_rotating i by simp
qed

section \<open>Minibatches: the chunks\<close>





text \<open>
  C9. With batch size 0 the construction over a dataset that passes validation succeeds,
  and every call of the iterator raises \<^verbatim>\<open>ZeroDivisionError\<close> before it yields a batch,
  leaving the iterator as it was.
\<close>

theorem Minibatches_zero_batch_size:
  assumes "assert_correct_data_format nd = Inr n"
  shows "\<exists>it. Minibatches_init R 0 sh vb seed nd = Inr it \<and>
     (\<forall>h v. \<exists>evs. Minibatches_call R it h v = ((evs, Some ZeroDivisionError), it) \<and>
        yields evs = [])"
proof -
  let ?it = "\<lparr>Minibatches.rnd = seed_state R seed, nr_sequences = n, data = nd, shuffle = sh,
     verbose = vb, batch_size = 0,
     sample_size = sum_list (map (\<lambda>a. column_elems a * 0) (arrays_of nd))\<rparr>"
  have i: "Minibatches_init R 0 sh vb seed nd = Inr ?it"
    using assms by (rule Minibatches_init_valid)
  have z: "Minibatches_indices R ?it = Inl ZeroDivisionError"
    by (simp add: Minibatches_indices_def nr_chunks_def)
  have "\<exists>evs. Minibatches_call R ?it h v = ((evs, Some ZeroDivisionError), ?it) \<and> yields evs = []"
    for h v
    unfolding Minibatches_call_def Let_def z
    by (simp split: option.splits)
  with i show ?thesis by blast
qed

theorem Minibatches_zero_batch_size_witness:
  "assert_correct_data_format example_data = Inr 3 \<and>
   Minibatches_init rotating 0 True None (Some 0) example_data = Inr example_zero_batches \<and>
   snd (fst (Minibatches_call rotating example_zero_batches gpu_handler False)) =
     Some ZeroDivisionError \<and>
   yields (fst (fst (Minibatches_call rotating example_zero_batches gpu_handler False))) = []"
proof -
  have v: "assert_correct_data_format example_data = Inr 3"
    by (simp add: assert_correct_data_format_def example_data_def host_array_def)
  have i: "Minibatches_init rotating 0 True None (Some 0) example_data = Inr example_zero_batches"
    by code_simp
  from Minibatches_zero_batch_size [OF v, of rotating True None "Some 0"] i
  have "\<exists>evs. Minibatches_call rotating example_zero_batches gpu_handler False =
      ((evs, Some ZeroDivisionError), example_zero_batches) \<and> yields evs = []"
    by auto
  with v i show ?thesis by auto
qed

section \<open>The order of the indices\<close>











section \<open>Copy or zero-copy\<close>

lemma allocations_alloc_events:
  "allocations (alloc_events arr s) = (case arr of None \<Rightarrow> [] | Some a \<Rightarrow> [(s, a)])"
  by (cases arr) (simp_all add: alloc_events_def)

lemma copies_alloc_events: "copies (alloc_events arr s) = []"
  by (cases arr) (simp_all add: alloc_events_def)

lemma chunk_run_staged_or_viewed:
  "staged_or_viewed nd h s b indices
     (alloc_events (buffer_of nd h s) s @ chunk_run nd (buffer_of nd h s) b indices)"
proof (cases "need_copy_of nd h")
  case True
  then show ?thesis
    by (simp add: staged_or_viewed_def buffer_of_def allocations_append yields_append
        copies_append allocations_alloc_events copies_alloc_events yields_alloc_events
        allocations_chunk_run yields_chunk_run copies_chunk_run chunk_batch_def
        chunk_events_def copies_copy_events)
next
  case False
  then show ?thesis
    by (simp add: staged_or_viewed_def buffer_of_def allocations_append yields_append
        copies_append allocations_alloc_events copies_alloc_events yields_alloc_events
        allocations_chunk_run yields_chunk_run copies_chunk_run chunk_batch_def
        chunk_events_def)
qed

lemma Online_staged_or_viewed:
  assumes "Online_init R sh vb seed nd = Inr it"
  shows "staged_or_viewed nd h (Online.sample_size it) 1 (fst (Online_indices R it))
     (fst (fst (Online_call R it h v)))"
  by (simp add: Online_call_run [OF assms] chunk_run_staged_or_viewed)

lemma Minibatches_staged_or_viewed:
  assumes "Minibatches_init R b sh vb seed nd = Inr it"
  shows "staged_or_viewed nd h (Minibatches.sample_size it) b (order_of (Minibatches_order R it))
     (fst (fst (Minibatches_call R it h v)))"
proof (cases "Minibatches_indices R it")
  case (Inl e)
  have "fst (fst (Minibatches_call R it h v)) =
      alloc_events (buffer_of (Minibatches.data it) h (Minibatches.sample_size it))
        (Minibatches.sample_size it)"
    by (simp add: Minibatches_call_def Let_def Inl buffer_of_def alloc_events_def)
  moreover have "order_of (Minibatches_order R it) = []"
    by (simp add: order_of_def Minibatches_order_def Inl)
  moreover note chunk_run_staged_or_viewed [of nd h "Minibatches.sample_size it" b "[]"]
  ultimately show ?thesis
    using Minibatches_init_fields(2) [OF assms] by (simp add: chunk_run_def)
next
  case (Inr p)
  obtain indices g where p: "p = (indices, g)" by (cases p)
  with Inr have ix: "Minibatches_indices R it = Inr (indices, g)" by simp
  have "order_of (Minibatches_order R it) = indices"
    by (simp add: order_of_def Minibatches_order_def ix)
  then show ?thesis
    by (simp add: Minibatches_call_run [OF assms ix] chunk_run_staged_or_viewed)
qed

lemma staged_buf: "\<forall>dst \<in> set (staged (allocate h s) j srcs). buf dst = next_buf h"
  using buf_staged [of _ "allocate h s" j srcs] by (simp add: allocate_def)

lemma chunk_view_alias:
  assumes "3 \<le> length (shape a)" and "length (strides a) = length (shape a)"
    and "valid_index (chunk_view b idx a) ix"
  shows "\<exists>t c fs. ix = t # c # fs \<and>
     buf (chunk_view b idx a) = buf a \<and>
     valid_index a (t # (idx * b + c) # fs) \<and>
     cell (chunk_view b idx a) ix = cell a (t # (idx * b + c) # fs) \<and>
     getitem (setitem st (chunk_view b idx a) ix x) a (t # (idx * b + c) # fs) = x"
proof -
  from assms(1) obtain t0 n fs0 where shp: "shape a = t0 # n # fs0"
    by (cases "shape a"; cases "tl (shape a)") auto
  with assms(2) obtain s0 s1 ss where str: "strides a = s0 # s1 # ss"
    by (cases "strides a"; cases "tl (strides a)") auto
  let ?w = "chunk_view b idx a"
  have wshape: "shape ?w = t0 # chunk_extent n b idx # fs0"
    by (simp add: chunk_view_def shp)
  from assms(3) obtain t c fs where ix: "ix = t # c # fs" and t: "t < t0"
    and c: "c < chunk_extent n b idx" and fs: "list_all2 (\<lambda>i n. i < n) fs fs0"
    unfolding valid_index_def wshape by (auto simp add: list_all2_Cons2)
  from c have lo: "idx * b < n" and hi: "idx * b + c < n"
    by (auto simp add: chunk_extent_def min_def split: if_splits)
  have b: "buf ?w = buf a" by (simp add: chunk_view_def)
  have v: "valid_index a (t # (idx * b + c) # fs)"
    using t hi fs by (simp add: valid_index_def shp)
  have cl: "cell ?w ix = cell a (t # (idx * b + c) # fs)"
    using lo by (simp add: cell_def chunk_view_def shp str ix min_def algebra_simps)
  have "getitem (setitem st ?w ix x) a (t # (idx * b + c) # fs) = x"
    by (simp add: getitem_def setitem_def b cl)
  with ix b v cl show ?thesis by blast
qed

text \<open>
  C7. One call of the Online or of the Minibatches iterator takes one of two forms, fixed
  for the whole call by whether every array of the dataset is an instance of the handler's
  marker class. If every array is, the call makes no allocation and no copy, and every
  batch consists of the views that the slices of the dataset are: a view shares the
  buffer of its source, a valid index of the view denotes the cell of the source index
  shifted by the start of the slice, and an element written through the view is read back
  through the source. If some array is not, the call allocates exactly one flat buffer, of
  the sample size, and every batch consists of slices of that buffer, into which the
  slices of the dataset were copied.
\<close>

theorem copy_decision_per_call:
  "(Online_init R sh vb seed nd = Inr it \<longrightarrow>
      staged_or_viewed nd h (Online.sample_size it) 1 (fst (Online_indices R it))
        (fst (fst (Online_call R it h v)))) \<and>
   (Minibatches_init R b sh vb seed nd = Inr mit \<longrightarrow>
      staged_or_viewed nd h (Minibatches.sample_size mit) b (order_of (Minibatches_order R mit))
        (fst (fst (Minibatches_call R mit h v)))) \<and>
   (\<forall>dst \<in> set (staged (allocate h s) j srcs). buf dst = next_buf h) \<and>
   (3 \<le> length (shape a) \<and> length (strides a) = length (shape a) \<and>
    valid_index (chunk_view b idx a) ix \<longrightarrow>
      (\<exists>t c fs. ix = t # c # fs \<and>
         buf (chunk_view b idx a) = buf a \<and>
         valid_index a (t # (idx * b + c) # fs) \<and>
         cell (chunk_view b idx a) ix = cell a (t # (idx * b + c) # fs) \<and>
         getitem (setitem st (chunk_view b idx a) ix x) a (t # (idx * b + c) # fs) = x))"
  using Online_staged_or_viewed [of R sh vb seed nd it h v]
    Minibatches_staged_or_viewed [of R b sh vb seed nd mit h v]
    staged_buf [of h s j srcs] chunk_view_alias [of a b idx ix st x]
  by blast

theorem copy_decision_per_call_witness:
  "Online_init rotating True None (Some 1) example_data = Inr example_online \<and>
   need_copy_of example_data gpu_handler \<and>
   allocations (fst (fst (Online_call rotating example_online gpu_handler False))) =
     [(5, allocate gpu_handler 5)] \<and>
   Minibatches_init rotating 2 True None (Some 0) example_data = Inr example_minibatches \<and>
   \<not> need_copy_of example_data numpy_handler \<and>
   allocations (fst (fst (Minibatches_call rotating example_minibatches numpy_handler False))) = [] \<and>
   copies (fst (fst (Minibatches_call rotating example_minibatches numpy_handler False))) = [] \<and>
   valid_index (chunk_view 1 2 example_x) [1, 0, 1] \<and>
   getitem (setitem (\<lambda>b c. 0) (chunk_view 1 2 example_x) [1, 0, 1] (1::nat)) example_x [1, 2, 1] = 1"
proof -
  have o: "Online_init rotating True None (Some 1) example_data = Inr example_online"
    by code_simp
  have m: "Minibatches_init rotating 2 True None (Some 0) example_data = Inr example_minibatches"
    by code_simp
  have c: "need_copy_of example_data gpu_handler" by code_simp
  have z: "\<not> need_copy_of example_data numpy_handler" by code_simp
  have so: "Online.sample_size example_online = 5" by (simp add: example_online_def)
  have x: "3 \<le> length (shape example_x)" "length (strides example_x) = length (shape example_x)"
    by (simp_all add: example_x_def)
  have v: "valid_index (chunk_view 1 2 example_x) [1, 0, 1]" by code_simp
  from copy_decision_per_call [where h = gpu_handler and v = False, THEN conjunct1, THEN mp, OF o]
    c so
  have p1: "allocations (fst (fst (Online_call rotating example_online gpu_handler False))) =
     [(5, allocate gpu_handler 5)]"
    by (simp add: staged_or_viewed_def)
  from copy_decision_per_call [where h = numpy_handler and v = False, THEN conjunct2,
      THEN conjunct1, THEN mp, OF m] z
  have p2: "allocations (fst (fst (Minibatches_call rotating example_minibatches numpy_handler False))) = []"
    and p3: "copies (fst (fst (Minibatches_call rotating example_minibatches numpy_handler False))) = []"
    by (simp_all add: staged_or_viewed_def)
  from copy_decision_per_call [where a = example_x and b = 1 and idx = 2 and ix = "[1, 0, 1]"
      and st = "\<lambda>b c. 0" and x = "1::nat", THEN conjunct2, THEN conjunct2, THEN conjunct2,
      THEN mp] x v
  have "\<exists>t c fs. [1, 0, 1] = t # c # fs \<and>
      getitem (setitem (\<lambda>b c. 0) (chunk_view 1 2 example_x) [1, 0, 1] (1::nat)) example_x
        (t # (2 * 1 + c) # fs) = 1"
    by blast
  then have p4: "getitem (setitem (\<lambda>b c. 0) (chunk_view 1 2 example_x) [1, 0, 1] (1::nat))
      example_x [1, 2, 1] = 1"
    by (auto simp add: numeral_2_eq_2)
  from o m c z p1 p2 p3 v p4 show ?thesis by simp
qed

end
